theory Spec2Isabelle
  imports Complex_Main "HOL-Library.Multiset" "HOL-Library.Word"
begin

section \<open>Process records\<close>

text \<open>
  The class \<^verbatim>\<open>Process\<close> of \<^verbatim>\<open>process_scheduling.cpp\<close>. The field \<^verbatim>\<open>id\<close> is called
  \<open>pid\<close> here, since \<open>id\<close> is the identity function of HOL. The C++ fields are \<^verbatim>\<open>int\<close>,
  32 bits wide: they are words of 32 bits, read as two's complement numbers by \<open>sint\<close>.
  Addition and subtraction wrap around, as they do in the compiled program (the C++
  standard leaves signed overflow undefined), and every comparison is the signed one.
\<close>

type_synonym int32 = "32 word"

text \<open>\<^verbatim>\<open>std::min\<close> and \<^verbatim>\<open>std::max\<close> on \<^verbatim>\<open>int\<close>.\<close>

definition smin :: "int32 \<Rightarrow> int32 \<Rightarrow> int32" where
  "smin a b = (if sint b < sint a then b else a)"

definition smax :: "int32 \<Rightarrow> int32 \<Rightarrow> int32" where
  "smax a b = (if sint a < sint b then b else a)"

record process =
  pid :: int32
  arrivalTime :: int32
  burstTime :: int32
  remainingTime :: int32
  completionTime :: int32
  turnaroundTime :: int32
  waitingTime :: int32
  responseTime :: int32
  priority :: int32

text \<open>The constructor \<^verbatim>\<open>Process(id, arrival, burst, priority)\<close>.\<close>

definition Process :: "int32 \<Rightarrow> int32 \<Rightarrow> int32 \<Rightarrow> int32 \<Rightarrow> process" where
  "Process i arrival burst prio =
     \<lparr>pid = i, arrivalTime = arrival, burstTime = burst, remainingTime = burst,
      completionTime = 0, turnaroundTime = 0, waitingTime = 0, responseTime = -1,
      priority = prio\<rparr>"

section \<open>Aggregate metrics\<close>

text \<open>
  The four metrics are \<^verbatim>\<open>double\<close>s, each the quotient of two integers converted to
  \<^verbatim>\<open>double\<close>. The model keeps the special values of IEEE 754 division (a zero divisor gives
  an infinity or NaN, and never traps) and takes a finite quotient as the exact real
  number: rounding is not modelled. The divisors of \<^verbatim>\<open>calculateMetrics\<close> come from
  integers, so a zero divisor is the positive zero.
\<close>

datatype double = Finite real | PosInf | NegInf | NaN

definition fdiv :: "real \<Rightarrow> real \<Rightarrow> double" where
  "fdiv a b =
     (if b \<noteq> 0 then Finite (a / b)
      else if 0 < a then PosInf
      else if a < 0 then NegInf
      else NaN)"

record metrics =
  avgWaitingTime :: double
  avgTurnaroundTime :: double
  avgResponseTime :: double
  throughput :: double

text \<open>
  \<^verbatim>\<open>Scheduler::calculateMetrics\<close>: one pass over the vector, then four divisions. The
  three totals and the maximum are \<^verbatim>\<open>int\<close>s; the totals wrap around like any other sum.
\<close>

definition calculateMetrics :: "process list \<Rightarrow> metrics" where
  "calculateMetrics ps =
     (let totalWaitingTime = foldl (\<lambda>t p. t + waitingTime p) 0 ps;
          totalTurnaroundTime = foldl (\<lambda>t p. t + turnaroundTime p) 0 ps;
          totalResponseTime = foldl (\<lambda>t p. t + responseTime p) 0 ps;
          maxCompletionTime = foldl (\<lambda>m p. smax m (completionTime p)) 0 ps
      in \<lparr>avgWaitingTime = fdiv (real_of_int (sint totalWaitingTime)) (real (length ps)),
          avgTurnaroundTime = fdiv (real_of_int (sint totalTurnaroundTime)) (real (length ps)),
          avgResponseTime = fdiv (real_of_int (sint totalResponseTime)) (real (length ps)),
          throughput = fdiv (real (length ps)) (real_of_int (sint maxCompletionTime))\<rparr>)"

section \<open>The containers of the standard library\<close>

text \<open>
  \<^verbatim>\<open>std::sort\<close> with the comparator \<^verbatim>\<open>a.arrivalTime < b.arrivalTime\<close>. The C++ standard
  leaves the order of elements with equal keys open; the model is the insertion sort that
  keeps them in their original order, which is what libstdc++ does on vectors of up to 16
  elements (on longer ones its introsort may reorder equal keys). The general properties
  proved below use of the sorted vector only that it is a permutation of the input.
\<close>

definition sort_by_arrival :: "process list \<Rightarrow> process list" where
  "sort_by_arrival ps = sort_key (\<lambda>p. sint (arrivalTime p)) ps"

text \<open>
  \<^verbatim>\<open>std::priority_queue<Process*, std::vector<Process*>, decltype(cmp)>\<close>. A pointer
  \<^verbatim>\<open>&processes[i]\<close> is the index \<open>i\<close>; the queue is the underlying vector, kept as a binary
  heap by \<^verbatim>\<open>std::push_heap\<close> and \<^verbatim>\<open>std::pop_heap\<close>. The standard fixes which element is
  at the top only up to equivalence under the comparator; the functions below follow the
  algorithms of libstdc++ (\<^verbatim>\<open>__push_heap\<close> and \<^verbatim>\<open>__adjust_heap\<close> of
  \<^verbatim>\<open>bits/stl_heap.h\<close>), which settles the order among equal keys as GCC does.
\<close>

function push_heap_loop ::
  "(nat \<Rightarrow> nat \<Rightarrow> bool) \<Rightarrow> nat list \<Rightarrow> nat \<Rightarrow> nat \<Rightarrow> nat \<Rightarrow> nat list" where
  "push_heap_loop cmp first holeIndex topIndex val =
     (let parent = (holeIndex - 1) div 2 in
      if holeIndex > topIndex \<and> cmp (first ! parent) val
      then push_heap_loop cmp (first[holeIndex := first ! parent]) parent topIndex val
      else first[holeIndex := val])"
  by pat_completeness auto
termination
  by (relation "measure (\<lambda>(cmp, first, holeIndex, topIndex, val). holeIndex)") auto

declare push_heap_loop.simps [simp del]

function adjust_heap_loop ::
  "(nat \<Rightarrow> nat \<Rightarrow> bool) \<Rightarrow> nat list \<Rightarrow> nat \<Rightarrow> nat \<Rightarrow> nat list \<times> nat" where
  "adjust_heap_loop cmp first secondChild len =
     (if secondChild < (len - 1) div 2
      then let c = 2 * (secondChild + 1);
               c' = (if cmp (first ! c) (first ! (c - 1)) then c - 1 else c)
           in adjust_heap_loop cmp (first[secondChild := first ! c']) c' len
      else (first, secondChild))"
  by pat_completeness auto
termination
  by (relation "measure (\<lambda>(cmp, first, secondChild, len). len - secondChild)") auto

declare adjust_heap_loop.simps [simp del]

text \<open>
  \<^verbatim>\<open>__adjust_heap(first, holeIndex, len, value, cmp)\<close>: the hole moves down to a leaf along
  the larger children, then the value climbs from there. In the loop \<^verbatim>\<open>holeIndex\<close> and
  \<^verbatim>\<open>secondChild\<close> are equal at every test, so the loop carries one index.
\<close>

definition adjust_heap ::
  "(nat \<Rightarrow> nat \<Rightarrow> bool) \<Rightarrow> nat list \<Rightarrow> nat \<Rightarrow> nat \<Rightarrow> nat \<Rightarrow> nat list" where
  "adjust_heap cmp first holeIndex len val =
     (let (first1, hole1) = adjust_heap_loop cmp first holeIndex len;
          (first2, hole2) =
             (if even len \<and> hole1 = (len - 2) div 2
              then (first1[hole1 := first1 ! (2 * (hole1 + 1) - 1)], 2 * (hole1 + 1) - 1)
              else (first1, hole1))
      in push_heap_loop cmp first2 hole2 holeIndex val)"

text \<open>\<^verbatim>\<open>priority_queue::push\<close>: \<^verbatim>\<open>push_back\<close>, then \<^verbatim>\<open>push_heap\<close>.\<close>

definition pq_push :: "(nat \<Rightarrow> nat \<Rightarrow> bool) \<Rightarrow> nat list \<Rightarrow> nat \<Rightarrow> nat list" where
  "pq_push cmp c x = push_heap_loop cmp (c @ [x]) (length c) 0 x"

text \<open>
  \<^verbatim>\<open>priority_queue::pop\<close>: \<^verbatim>\<open>pop_heap\<close> (which does nothing on fewer than two elements),
  then \<^verbatim>\<open>pop_back\<close>. \<^verbatim>\<open>priority_queue::top\<close> is the front of the vector, \<open>hd\<close>; the
  schedulers call both only on a non-empty queue.
\<close>

definition pq_pop :: "(nat \<Rightarrow> nat \<Rightarrow> bool) \<Rightarrow> nat list \<Rightarrow> nat list" where
  "pq_pop cmp c =
     (if length c > 1
      then butlast (adjust_heap cmp (c[length c - 1 := hd c]) 0 (length c - 1) (last c))
      else butlast c)"

section \<open>The state of a simulation\<close>

text \<open>
  The local variables of a \<^verbatim>\<open>schedule\<close> method together with the vector \<^verbatim>\<open>processes\<close>
  of the scheduler. The loop variable \<^verbatim>\<open>i\<close> is the field \<open>idx\<close>; \<open>pq\<close> is the ready set
  (the heap, or for Round Robin the FIFO queue, front first).
\<close>

record sched =
  processes :: "process list"
  pq :: "nat list"
  currentTime :: int32
  completed :: nat
  idx :: nat

datatype error = IndexOutOfRange

definition init :: "process list \<Rightarrow> sched" where
  "init ps = \<lparr>processes = ps, pq = [], currentTime = 0, completed = 0, idx = 0\<rparr>"

text \<open>
  The admission loop
  \<^verbatim>\<open>for (; i < processes.size() && processes[i].arrivalTime <= currentTime; ++i) pq.push(&processes[i]);\<close>
  with the push of the container as a parameter (it may read the processes through the
  pointers it compares).
\<close>

function admit :: "(process list \<Rightarrow> nat list \<Rightarrow> nat \<Rightarrow> nat list) \<Rightarrow> sched \<Rightarrow> sched" where
  "admit push s =
     (if idx s < length (processes s)
         \<and> sint (arrivalTime (processes s ! idx s)) \<le> sint (currentTime s)
      then admit push (s\<lparr>pq := push (processes s) (pq s) (idx s), idx := idx s + 1\<rparr>)
      else s)"
  by pat_completeness auto
termination
  by (relation "measure (\<lambda>(push, s). length (processes s) - idx s)") auto

declare admit.simps [simp del]

text \<open>
  The loop \<^verbatim>\<open>while (completed < processes.size()) body\<close>. It may run forever, so it takes
  fuel: the number of times the body may run. \<open>None\<close> means that the fuel did not suffice.
  An error of the body ends the run.
\<close>

fun loop :: "(sched \<Rightarrow> error + sched) \<Rightarrow> nat \<Rightarrow> sched \<Rightarrow> (error + sched) option" where
  "loop body fuel s =
     (if completed s < length (processes s)
      then (case fuel of
              0 \<Rightarrow> None
            | Suc k \<Rightarrow> (case body s of Inl e \<Rightarrow> Some (Inl e) | Inr s' \<Rightarrow> loop body k s'))
      else Some (Inr s))"

declare loop.simps [simp del]

text \<open>
  The branch taken on an empty ready set: \<^verbatim>\<open>currentTime = processes[i].arrivalTime; continue;\<close>.
  Reading \<^verbatim>\<open>processes[i]\<close> with \<^verbatim>\<open>i\<close> past the end is undefined behaviour in C++; the model
  makes it the error \<open>IndexOutOfRange\<close>.
\<close>

definition fast_forward :: "sched \<Rightarrow> error + sched" where
  "fast_forward s =
     (if idx s < length (processes s)
      then Inr (s\<lparr>currentTime := arrivalTime (processes s ! idx s)\<rparr>)
      else Inl IndexOutOfRange)"

text \<open>The updates of one process through the pointer \<^verbatim>\<open>p\<close>.\<close>

definition set_response :: "int32 \<Rightarrow> process \<Rightarrow> process" where
  "set_response now p =
     (if responseTime p = -1 then p\<lparr>responseTime := now - arrivalTime p\<rparr> else p)"

definition finalize :: "int32 \<Rightarrow> process \<Rightarrow> process" where
  "finalize t p =
     (let p1 = p\<lparr>completionTime := t\<rparr>;
          p2 = p1\<lparr>turnaroundTime := completionTime p1 - arrivalTime p1\<rparr>
      in p2\<lparr>waitingTime := turnaroundTime p2 - burstTime p2\<rparr>)"

section \<open>The six policies\<close>

subsection \<open>FCFS\<close>

text \<open>The body of the \<^verbatim>\<open>for\<close> loop of \<^verbatim>\<open>FCFSScheduler::schedule\<close>, and the loop.\<close>

definition fcfs_step :: "int32 \<Rightarrow> process \<Rightarrow> int32 \<times> process" where
  "fcfs_step now p =
     (let t = (if sint now < sint (arrivalTime p) then arrivalTime p else now);
          p1 = p\<lparr>responseTime := t - arrivalTime p\<rparr>;
          p2 = finalize (t + burstTime p1) p1
      in (completionTime p2, p2))"

fun fcfs_loop :: "int32 \<Rightarrow> process list \<Rightarrow> process list" where
  "fcfs_loop now [] = []"
| "fcfs_loop now (p # ps) = (let (t, p') = fcfs_step now p in p' # fcfs_loop t ps)"

subsection \<open>SJF and Priority (non-preemptive)\<close>

text \<open>
  \<^verbatim>\<open>SJFScheduler::schedule\<close> and \<^verbatim>\<open>PriorityScheduler::schedule\<close> have the same loop body and
  differ in the comparator of the priority queue only. The top of a
  \<^verbatim>\<open>std::priority_queue\<close> is a greatest element under the comparator read as "less than".
\<close>

definition sjf_cmp :: "process list \<Rightarrow> nat \<Rightarrow> nat \<Rightarrow> bool" where
  "sjf_cmp ps a b = (sint (burstTime (ps ! a)) > sint (burstTime (ps ! b)))"

definition priority_cmp :: "process list \<Rightarrow> nat \<Rightarrow> nat \<Rightarrow> bool" where
  "priority_cmp ps a b = (sint (priority (ps ! a)) < sint (priority (ps ! b)))"

definition np_body :: "(process list \<Rightarrow> nat \<Rightarrow> nat \<Rightarrow> bool) \<Rightarrow> sched \<Rightarrow> error + sched" where
  "np_body cmp s0 =
     (let s = admit (\<lambda>ps. pq_push (cmp ps)) s0 in
      if pq s = [] then fast_forward s
      else
        let p = hd (pq s);
            q = pq_pop (cmp (processes s)) (pq s);
            r = set_response (currentTime s) (processes s ! p);
            r' = finalize (currentTime s + burstTime r) r
        in Inr (s\<lparr>processes := (processes s)[p := r'], pq := q,
                  currentTime := completionTime r', completed := completed s + 1\<rparr>))"

subsection \<open>SRTF and Preemptive Priority\<close>

text \<open>
  \<^verbatim>\<open>SRTFScheduler::schedule\<close> and \<^verbatim>\<open>PreemptivePriorityScheduler::schedule\<close> have the same
  loop body up to the comparator.
\<close>

definition srtf_cmp :: "process list \<Rightarrow> nat \<Rightarrow> nat \<Rightarrow> bool" where
  "srtf_cmp ps a b = (sint (remainingTime (ps ! a)) > sint (remainingTime (ps ! b)))"

definition preemptive_priority_cmp :: "process list \<Rightarrow> nat \<Rightarrow> nat \<Rightarrow> bool" where
  "preemptive_priority_cmp ps a b = (sint (priority (ps ! a)) > sint (priority (ps ! b)))"

definition pr_body :: "(process list \<Rightarrow> nat \<Rightarrow> nat \<Rightarrow> bool) \<Rightarrow> sched \<Rightarrow> error + sched" where
  "pr_body cmp s0 =
     (let s = admit (\<lambda>ps. pq_push (cmp ps)) s0 in
      if pq s = [] then fast_forward s
      else
        let p = hd (pq s);
            q = pq_pop (cmp (processes s)) (pq s);
            r = set_response (currentTime s) (processes s ! p);
            executionTime =
              (if idx s < length (processes s)
               then smin (remainingTime r) (arrivalTime (processes s ! idx s) - currentTime s)
               else remainingTime r);
            r1 = r\<lparr>remainingTime := remainingTime r - executionTime\<rparr>;
            now = currentTime s + executionTime
        in if remainingTime r1 = 0
           then Inr (s\<lparr>processes := (processes s)[p := finalize now r1], pq := q,
                      currentTime := now, completed := completed s + 1\<rparr>)
           else Inr (s\<lparr>processes := (processes s)[p := r1],
                      pq := pq_push (cmp ((processes s)[p := r1])) q p,
                      currentTime := now\<rparr>))"

subsection \<open>Round Robin\<close>

text \<open>
  \<^verbatim>\<open>RoundRobinScheduler::schedule\<close>. The ready set is a \<^verbatim>\<open>std::queue\<close>: push at the back,
  pop at the front.
\<close>

definition queue_push :: "process list \<Rightarrow> nat list \<Rightarrow> nat \<Rightarrow> nat list" where
  "queue_push ps c x = c @ [x]"

definition rr_body :: "int32 \<Rightarrow> sched \<Rightarrow> error + sched" where
  "rr_body timeQuantum s0 =
     (let s = admit queue_push s0 in
      if pq s = [] then fast_forward s
      else
        let p = hd (pq s);
            r = set_response (currentTime s) (processes s ! p);
            executionTime = smin timeQuantum (remainingTime r);
            r1 = r\<lparr>remainingTime := remainingTime r - executionTime\<rparr>;
            now = currentTime s + executionTime;
            s1 = admit queue_push
                   (s\<lparr>processes := (processes s)[p := r1], pq := tl (pq s),
                      currentTime := now\<rparr>)
        in if sint (remainingTime r1) > 0
           then Inr (s1\<lparr>pq := queue_push (processes s1) (pq s1) p\<rparr>)
           else Inr (s1\<lparr>processes := (processes s1)[p := finalize now r1],
                       completed := completed s1 + 1\<rparr>))"

subsection \<open>The schedulers\<close>

datatype policy = FCFS | SJF | SRTF | RoundRobin int32 | Priority | PreemptivePriority

definition finish :: "(error + sched) option \<Rightarrow> (error + process list) option" where
  "finish r = map_option (map_sum (\<lambda>e. e) processes) r"

text \<open>
  The simulation of \<^verbatim>\<open>schedule\<close> up to the call of \<^verbatim>\<open>calculateMetrics\<close>: the vector of
  processes at the end, an error, or \<open>None\<close> when the fuel runs out. Every scheduler but
  Round Robin sorts the vector first. FCFS has a \<^verbatim>\<open>for\<close> loop over the vector and needs
  no fuel. The argument of \<open>RoundRobin\<close> is \<^verbatim>\<open>timeQuantum\<close>.
\<close>

fun simulate :: "policy \<Rightarrow> nat \<Rightarrow> process list \<Rightarrow> (error + process list) option" where
  "simulate FCFS fuel ps = Some (Inr (fcfs_loop 0 (sort_by_arrival ps)))"
| "simulate SJF fuel ps = finish (loop (np_body sjf_cmp) fuel (init (sort_by_arrival ps)))"
| "simulate SRTF fuel ps = finish (loop (pr_body srtf_cmp) fuel (init (sort_by_arrival ps)))"
| "simulate (RoundRobin q) fuel ps = finish (loop (rr_body q) fuel (init ps))"
| "simulate Priority fuel ps =
     finish (loop (np_body priority_cmp) fuel (init (sort_by_arrival ps)))"
| "simulate PreemptivePriority fuel ps =
     finish (loop (pr_body preemptive_priority_cmp) fuel (init (sort_by_arrival ps)))"

text \<open>\<^verbatim>\<open>schedule\<close>: the simulation, then \<^verbatim>\<open>calculateMetrics\<close> on the result.\<close>

definition schedule ::
  "policy \<Rightarrow> nat \<Rightarrow> process list \<Rightarrow> (error + process list \<times> metrics) option" where
  "schedule pol fuel ps =
     map_option (map_sum (\<lambda>e. e) (\<lambda>ps'. (ps', calculateMetrics ps'))) (simulate pol fuel ps)"

section \<open>Notions used in the statements\<close>

text \<open>
  A process as the constructor leaves it, with the bounds the specification asks of an
  input: a non-negative arrival time and a positive burst time.
\<close>

definition valid_process :: "process \<Rightarrow> bool" where
  "valid_process p \<longleftrightarrow>
     0 \<le> sint (arrivalTime p) \<and> 0 < sint (burstTime p)
     \<and> remainingTime p = burstTime p \<and> responseTime p = -1"

definition valid :: "process list \<Rightarrow> bool" where
  "valid ps \<longleftrightarrow> list_all valid_process ps"

text \<open>
  No clock value of a run leaves the range of \<^verbatim>\<open>int\<close>: the latest arrival time plus the sum
  of the burst times is below \<open>2\<^sup>3\<^sup>1\<close>.
\<close>

definition latest_arrival :: "process list \<Rightarrow> int" where
  "latest_arrival ps = foldr (\<lambda>p m. max (sint (arrivalTime p)) m) ps 0"

definition total_burst :: "process list \<Rightarrow> int" where
  "total_burst ps = sum_list (map (\<lambda>p. sint (burstTime p)) ps)"

definition fits :: "process list \<Rightarrow> bool" where
  "fits ps \<longleftrightarrow> latest_arrival ps + total_burst ps < 2 ^ 31"

fun valid_policy :: "policy \<Rightarrow> bool" where
  "valid_policy (RoundRobin q) \<longleftrightarrow> 0 < sint q"
| "valid_policy pol \<longleftrightarrow> True"

fun preemptive :: "policy \<Rightarrow> bool" where
  "preemptive SRTF \<longleftrightarrow> True"
| "preemptive (RoundRobin q) \<longleftrightarrow> True"
| "preemptive PreemptivePriority \<longleftrightarrow> True"
| "preemptive pol \<longleftrightarrow> False"

text \<open>
  The state at the head of the \<^verbatim>\<open>while\<close> loop after exactly \<open>k\<close> runs of its body
  (\<open>None\<close> when the loop has ended earlier or the body has failed).
\<close>

fun iterate :: "(sched \<Rightarrow> error + sched) \<Rightarrow> nat \<Rightarrow> sched \<Rightarrow> sched option" where
  "iterate body 0 s = Some s"
| "iterate body (Suc k) s =
     (if completed s < length (processes s)
      then (case body s of Inl e \<Rightarrow> None | Inr s' \<Rightarrow> iterate body k s')
      else None)"

text \<open>
  The \<^verbatim>\<open>while\<close> loop of a policy: its body, the push of its ready set, and the state it
  starts from. FCFS has no such loop.
\<close>

fun loop_body :: "policy \<Rightarrow> (sched \<Rightarrow> error + sched) option" where
  "loop_body FCFS = None"
| "loop_body SJF = Some (np_body sjf_cmp)"
| "loop_body SRTF = Some (pr_body srtf_cmp)"
| "loop_body (RoundRobin q) = Some (rr_body q)"
| "loop_body Priority = Some (np_body priority_cmp)"
| "loop_body PreemptivePriority = Some (pr_body preemptive_priority_cmp)"

fun ready_push :: "policy \<Rightarrow> process list \<Rightarrow> nat list \<Rightarrow> nat \<Rightarrow> nat list" where
  "ready_push FCFS = queue_push"
| "ready_push SJF = (\<lambda>ps. pq_push (sjf_cmp ps))"
| "ready_push SRTF = (\<lambda>ps. pq_push (srtf_cmp ps))"
| "ready_push (RoundRobin q) = queue_push"
| "ready_push Priority = (\<lambda>ps. pq_push (priority_cmp ps))"
| "ready_push PreemptivePriority = (\<lambda>ps. pq_push (preemptive_priority_cmp ps))"

fun start :: "policy \<Rightarrow> process list \<Rightarrow> sched" where
  "start (RoundRobin q) ps = init ps"
| "start pol ps = init (sort_by_arrival ps)"

text \<open>
  A decision point: the state of the \<open>k\<close>-th run of the body after its admission loop,
  where the body tests the ready set and takes its front (its top) to dispatch.
\<close>

definition decision_point :: "policy \<Rightarrow> nat \<Rightarrow> process list \<Rightarrow> sched option" where
  "decision_point pol k ps =
     (case loop_body pol of
        None \<Rightarrow> None
      | Some b \<Rightarrow>
          (case iterate b k (start pol ps) of
             None \<Rightarrow> None
           | Some s \<Rightarrow>
               if completed s < length (processes s) then Some (admit (ready_push pol) s)
               else None))"

text \<open>A number of runs of the loop body that suffices on a valid input.\<close>

definition step_bound :: "process list \<Rightarrow> nat" where
  "step_bound ps = 4 * length ps + 1 + sum_list (map (\<lambda>p. nat (sint (burstTime p))) ps)"

text \<open>
  The slices of a Round Robin run, read off the loop: each run of the body that finds the
  queue non-empty gives the front process the processor from the current time for
  \<^verbatim>\<open>min(timeQuantum, remainingTime)\<close>. A slice is the \<^verbatim>\<open>id\<close>, the start and the end.
\<close>

definition rr_slice :: "int32 \<Rightarrow> sched \<Rightarrow> (int32 \<times> int32 \<times> int32) option" where
  "rr_slice timeQuantum s0 =
     (let s = admit queue_push s0 in
      if pq s = [] then None
      else let r = processes s ! hd (pq s)
           in Some (pid r, currentTime s, currentTime s + smin timeQuantum (remainingTime r)))"

fun rr_slices :: "int32 \<Rightarrow> nat \<Rightarrow> sched \<Rightarrow> (int32 \<times> int32 \<times> int32) list" where
  "rr_slices timeQuantum 0 s = []"
| "rr_slices timeQuantum (Suc k) s =
     (if completed s < length (processes s)
      then (case rr_body timeQuantum s of
              Inl e \<Rightarrow> []
            | Inr s' \<Rightarrow>
                (case rr_slice timeQuantum s of None \<Rightarrow> [] | Some x \<Rightarrow> [x])
                @ rr_slices timeQuantum k s')
      else [])"

text \<open>
  The process set of Scenario C of the specification, \<^verbatim>\<open>{(1,0,4),(2,1,3)}\<close>, built with the
  constructor (priority 0, its default).
\<close>

definition scenario_C :: "process list" where
  "scenario_C = [Process 1 0 4 0, Process 2 1 3 0]"

section \<open>Invariants of the loops\<close>

text \<open>The count kept by the loops: every admitted process is ready or completed.\<close>

definition cnt_inv :: "sched \<Rightarrow> bool" where
  "cnt_inv s \<longleftrightarrow> idx s \<le> length (processes s) \<and> completed s + length (pq s) = idx s"

definition cnt_len :: "nat \<Rightarrow> sched \<Rightarrow> bool" where
  "cnt_len n s \<longleftrightarrow> cnt_inv s \<and> length (processes s) = n"

definition push_ok :: "(process list \<Rightarrow> nat list \<Rightarrow> nat \<Rightarrow> nat list) \<Rightarrow> bool" where
  "push_ok push \<longleftrightarrow> (\<forall>ps q x. mset (push ps q x) = add_mset x (mset q))"

definition arrived :: "sched \<Rightarrow> bool" where
  "arrived s \<longleftrightarrow>
     idx s < length (processes s)
     \<and> sint (arrivalTime (processes s ! idx s)) \<le> sint (currentTime s)"

definition m1 :: "sched \<Rightarrow> nat" where
  "m1 s = 2 * (length (processes s) - idx s) + 2 * (length (processes s) - completed s)
          + (if arrived s then 0 else 1)"

definition m_rr :: "sched \<Rightarrow> nat" where
  "m_rr s = m1 s + sum_list (map (\<lambda>p. nat (sint (remainingTime p))) (processes s))"

text \<open>The measure that decreases with every run of the loop body of a policy.\<close>

fun loop_measure :: "policy \<Rightarrow> sched \<Rightarrow> nat" where
  "loop_measure (RoundRobin q) = m_rr"
| "loop_measure pol = m1"

definition same_static :: "process \<Rightarrow> process \<Rightarrow> bool" where
  "same_static p q \<longleftrightarrow>
     pid p = pid q \<and> arrivalTime p = arrivalTime q \<and> burstTime p = burstTime q
     \<and> priority p = priority q"

text \<open>
  The shape of the loop invariants. Every process of the vector is not yet admitted (and
  then untouched), or ready (and then \<open>R\<close> holds of it), or completed (and then \<open>D\<close>
  holds of it); \<open>L\<close> holds of the count of completed processes and one of them. \<open>R\<close>
  and \<open>D\<close> may speak of the clock.
\<close>

definition sinv ::
  "(int \<Rightarrow> process \<Rightarrow> bool) \<Rightarrow> (int \<Rightarrow> process \<Rightarrow> bool) \<Rightarrow> (nat \<Rightarrow> process \<Rightarrow> bool)
   \<Rightarrow> process list \<Rightarrow> sched \<Rightarrow> bool" where
  "sinv R D L ps s \<longleftrightarrow>
     length (processes s) = length ps \<and>
     (\<forall>j<length ps. same_static (processes s ! j) (ps ! j)) \<and>
     cnt_inv s \<and> distinct (pq s) \<and> (\<forall>j\<in>set (pq s). j < idx s) \<and>
     (\<forall>j<length ps. idx s \<le> j \<longrightarrow> processes s ! j = ps ! j) \<and>
     (\<forall>j\<in>set (pq s). R (sint (currentTime s)) (processes s ! j)) \<and>
     (\<forall>j<idx s. j \<notin> set (pq s) \<longrightarrow> D (sint (currentTime s)) (processes s ! j)) \<and>
     (completed s = 0 \<or> (\<exists>j<idx s. j \<notin> set (pq s) \<and> L (completed s) (processes s ! j)))"

text \<open>What holds of the processes whether or not the clock has wrapped around.\<close>

definition finalized :: "process \<Rightarrow> bool" where
  "finalized p \<longleftrightarrow>
     turnaroundTime p = completionTime p - arrivalTime p \<and>
     waitingTime p = turnaroundTime p - burstTime p"

definition fin_np :: "int \<Rightarrow> process \<Rightarrow> bool" where
  "fin_np t p \<longleftrightarrow> finalized p"

definition fin_pr :: "int \<Rightarrow> process \<Rightarrow> bool" where
  "fin_pr t p \<longleftrightarrow> finalized p \<and> remainingTime p = 0"

definition any_ready :: "int \<Rightarrow> process \<Rightarrow> bool" where
  "any_ready t p \<longleftrightarrow> True"

definition pos_rem :: "int \<Rightarrow> process \<Rightarrow> bool" where
  "pos_rem t p \<longleftrightarrow> 0 < sint (remainingTime p)"

definition any_last :: "nat \<Rightarrow> process \<Rightarrow> bool" where
  "any_last c p \<longleftrightarrow> True"

fun done_of :: "policy \<Rightarrow> int \<Rightarrow> process \<Rightarrow> bool" where
  "done_of SRTF = fin_pr"
| "done_of (RoundRobin q) = fin_pr"
| "done_of PreemptivePriority = fin_pr"
| "done_of pol = fin_np"

fun ready_of :: "policy \<Rightarrow> int \<Rightarrow> process \<Rightarrow> bool" where
  "ready_of (RoundRobin q) = pos_rem"
| "ready_of pol = any_ready"

definition winv :: "policy \<Rightarrow> process list \<Rightarrow> sched \<Rightarrow> bool" where
  "winv pol ps s \<longleftrightarrow> sinv (ready_of pol) (done_of pol) any_last ps s"

text \<open>What holds of the processes while no clock value leaves the range of \<^verbatim>\<open>int\<close>.\<close>

definition ready_ok :: "int \<Rightarrow> process \<Rightarrow> bool" where
  "ready_ok now p \<longleftrightarrow>
     sint (arrivalTime p) \<le> now \<and> 0 < sint (remainingTime p)
     \<and> sint (remainingTime p) \<le> sint (burstTime p) \<and>
     (if responseTime p = -1 then remainingTime p = burstTime p
      else 0 \<le> sint (responseTime p)
           \<and> sint (arrivalTime p) + sint (responseTime p)
               + (sint (burstTime p) - sint (remainingTime p)) \<le> now)"

definition ready_np :: "int \<Rightarrow> process \<Rightarrow> bool" where
  "ready_np now p \<longleftrightarrow>
     sint (arrivalTime p) \<le> now \<and> 0 < sint (burstTime p)
     \<and> remainingTime p = burstTime p \<and> responseTime p = -1"

definition done_ok :: "int \<Rightarrow> process \<Rightarrow> bool" where
  "done_ok now p \<longleftrightarrow>
     sint (turnaroundTime p) = sint (completionTime p) - sint (arrivalTime p) \<and>
     sint (waitingTime p) = sint (turnaroundTime p) - sint (burstTime p) \<and>
     0 \<le> sint (responseTime p) \<and> sint (responseTime p) \<le> sint (waitingTime p)
     \<and> sint (completionTime p) \<le> now"

definition last_ok :: "nat \<Rightarrow> process \<Rightarrow> bool" where
  "last_ok c p \<longleftrightarrow> int c \<le> sint (completionTime p)"

text \<open>The processing time that the processes not yet completed still need.\<close>

definition undone :: "sched \<Rightarrow> nat set" where
  "undone s = {j. j < length (processes s) \<and> (idx s \<le> j \<or> j \<in> set (pq s))}"

definition work :: "sched \<Rightarrow> int" where
  "work s = (\<Sum>j\<in>undone s. sint (remainingTime (processes s ! j)))"

definition tinv :: "(int \<Rightarrow> process \<Rightarrow> bool) \<Rightarrow> process list \<Rightarrow> sched \<Rightarrow> bool" where
  "tinv R ps s \<longleftrightarrow>
     sinv R done_ok last_ok ps s \<and> 0 \<le> sint (currentTime s)
     \<and> int (completed s) \<le> sint (currentTime s)
     \<and> sint (currentTime s) + work s \<le> latest_arrival ps + total_burst ps"

fun timed_ready :: "policy \<Rightarrow> int \<Rightarrow> process \<Rightarrow> bool" where
  "timed_ready SJF = ready_np"
| "timed_ready Priority = ready_np"
| "timed_ready pol = ready_ok"

text \<open>A binary heap on a vector of pointers, for the comparator \<open>cmp\<close> read as "less than".\<close>

definition is_heap :: "(nat \<Rightarrow> nat \<Rightarrow> bool) \<Rightarrow> nat list \<Rightarrow> nat \<Rightarrow> bool" where
  "is_heap cmp f n \<longleftrightarrow> (\<forall>j. 0 < j \<and> j < n \<longrightarrow> \<not> cmp (f ! ((j - 1) div 2)) (f ! j))"

text \<open>
  The heap with a hole at \<open>h\<close>, as \<^verbatim>\<open>__push_heap\<close> sees it while the value \<open>v\<close> climbs
  (\<open>heap_up\<close>) and as \<^verbatim>\<open>__adjust_heap\<close> sees it while the hole sinks (\<open>heap_down\<close>); \<open>k\<close>
  is the key that the comparator compares.
\<close>

definition heap_up :: "(nat \<Rightarrow> int) \<Rightarrow> nat \<Rightarrow> nat list \<Rightarrow> nat \<Rightarrow> nat \<Rightarrow> bool" where
  "heap_up k n f h v \<longleftrightarrow>
     h < n \<and>
     (\<forall>j. 0 < j \<and> j < n \<and> j \<noteq> h \<longrightarrow> k (f[h := v] ! j) \<le> k (f[h := v] ! ((j - 1) div 2))) \<and>
     (\<forall>j. 0 < j \<and> j < n \<and> (j - 1) div 2 = h \<and> 0 < h \<longrightarrow> k (f ! j) \<le> k (f ! ((h - 1) div 2)))"

definition heap_down :: "(nat \<Rightarrow> int) \<Rightarrow> nat \<Rightarrow> nat list \<Rightarrow> nat \<Rightarrow> bool" where
  "heap_down k n f h \<longleftrightarrow>
     h < n \<and>
     (\<forall>j. 0 < j \<and> j < n \<and> (j - 1) div 2 \<noteq> h \<longrightarrow> k (f ! j) \<le> k (f ! ((j - 1) div 2))) \<and>
     (\<forall>j. 0 < j \<and> j < n \<and> (j - 1) div 2 = h \<and> 0 < h \<longrightarrow> k (f ! j) \<le> k (f ! ((h - 1) div 2)))"

text \<open>The ready set of a state is a heap for the comparator of the policy.\<close>

definition heap_inv :: "(process list \<Rightarrow> nat \<Rightarrow> nat \<Rightarrow> bool) \<Rightarrow> sched \<Rightarrow> bool" where
  "heap_inv cmp s \<longleftrightarrow> is_heap (cmp (processes s)) (pq s) (length (pq s))"

section \<open>Lemmas\<close>

subsection \<open>The priority queue keeps its elements\<close>

lemma length_push_heap_loop [simp]:
  "length (push_heap_loop cmp f h t v) = length f"
proof (induction cmp f h t v rule: push_heap_loop.induct)
  case (1 cmp f h t v)
  then show ?case
    by (subst push_heap_loop.simps) (simp add: Let_def)
qed

lemma mset_update_swap:
  assumes "p < length f" "h < length f" "p \<noteq> h"
  shows "mset (f[h := f ! p, p := v]) = mset (f[h := v])"
  using assms by (simp add: mset_update nth_list_update)

lemma mset_push_heap_loop:
  "h < length f \<Longrightarrow> mset (push_heap_loop cmp f h t v) = mset (f[h := v])"
proof (induction cmp f h t v rule: push_heap_loop.induct)
  case (1 cmp f h t v)
  let ?p = "(h - 1) div 2"
  show ?case
  proof (cases "h > t \<and> cmp (f ! ?p) v")
    case True
    then have ph: "?p < h" by linarith
    have "mset (push_heap_loop cmp (f[h := f ! ?p]) ?p t v) = mset (f[h := f ! ?p, ?p := v])"
      using "1.IH"[OF refl True] ph "1.prems" by simp
    also have "\<dots> = mset (f[h := v])"
      using ph "1.prems" by (intro mset_update_swap) auto
    finally show ?thesis
      using True by (subst push_heap_loop.simps) (simp add: Let_def)
  next
    case False
    then show ?thesis
      by (subst push_heap_loop.simps) (auto simp: Let_def)
  qed
qed

lemma nth_push_heap_loop_above:
  "h < k \<Longrightarrow> push_heap_loop cmp f h t v ! k = f ! k"
proof (induction cmp f h t v rule: push_heap_loop.induct)
  case (1 cmp f h t v)
  let ?p = "(h - 1) div 2"
  show ?case
  proof (cases "h > t \<and> cmp (f ! ?p) v")
    case True
    then have ph: "?p < h" by linarith
    have "push_heap_loop cmp (f[h := f ! ?p]) ?p t v ! k = f[h := f ! ?p] ! k"
      using "1.IH"[OF refl True] ph "1.prems" by simp
    then show ?thesis
      using True "1.prems" by (subst push_heap_loop.simps) (simp add: Let_def)
  next
    case False
    then show ?thesis
      using "1.prems" by (subst push_heap_loop.simps) (auto simp: Let_def)
  qed
qed

lemma adjust_heap_loop_props:
  "adjust_heap_loop cmp f h len = (f', h') \<Longrightarrow> h < len \<Longrightarrow> len \<le> length f \<Longrightarrow>
     length f' = length f \<and> h' < len \<and> h \<le> h' \<and> (len - 1) div 2 \<le> h'
     \<and> mset (f'[h' := v]) = mset (f[h := v]) \<and> (\<forall>k\<ge>len. f' ! k = f ! k)"
proof (induction cmp f h len arbitrary: f' h' rule: adjust_heap_loop.induct)
  case (1 cmp f h len)
  show ?case
  proof (cases "h < (len - 1) div 2")
    case True
    define c where "c = 2 * (h + 1)"
    define c' where "c' = (if cmp (f ! c) (f ! (c - 1)) then c - 1 else c)"
    have c: "c < len" "h < c'" "c' < len" "c' \<le> c"
      using True by (auto simp: c_def c'_def)
    have rec: "adjust_heap_loop cmp (f[h := f ! c']) c' len = (f', h')"
      using "1.prems"(1) True
      by (subst (asm) adjust_heap_loop.simps) (auto simp: Let_def c_def c'_def split: if_splits)
    have IH: "length f' = length (f[h := f ! c']) \<and> h' < len \<and> c' \<le> h' \<and> (len - 1) div 2 \<le> h'
       \<and> mset (f'[h' := v]) = mset (f[h := f ! c', c' := v]) \<and> (\<forall>k\<ge>len. f' ! k = f[h := f ! c'] ! k)"
      using "1.IH"[OF True c_def c'_def rec] c "1.prems" by simp
    have "mset (f[h := f ! c', c' := v]) = mset (f[h := v])"
      using c "1.prems" by (intro mset_update_swap) auto
    with IH c "1.prems" show ?thesis by auto
  next
    case False
    then have "f' = f" "h' = h"
      using "1.prems"(1) by (subst (asm) adjust_heap_loop.simps, simp)+
    with False "1.prems" show ?thesis by simp
  qed
qed

lemma adjust_heap_props:
  assumes "h < len" "len \<le> length f"
  shows "length (adjust_heap cmp f h len v) = length f"
    and "mset (adjust_heap cmp f h len v) = mset (f[h := v])"
    and "\<And>k. len \<le> k \<Longrightarrow> adjust_heap cmp f h len v ! k = f ! k"
proof -
  obtain f1 h1 where l: "adjust_heap_loop cmp f h len = (f1, h1)"
    by (cases "adjust_heap_loop cmp f h len")
  note P = adjust_heap_loop_props[OF l assms]
  define f2 where "f2 = (if even len \<and> h1 = (len - 2) div 2 then f1[h1 := f1 ! (2 * (h1 + 1) - 1)] else f1)"
  define h2 where "h2 = (if even len \<and> h1 = (len - 2) div 2 then 2 * (h1 + 1) - 1 else h1)"
  have eq: "adjust_heap cmp f h len v = push_heap_loop cmp f2 h2 h v"
    by (simp add: adjust_heap_def l f2_def h2_def)
  have "h2 = len - 1 \<and> h1 < h2" if "even len" "h1 = (len - 2) div 2"
  proof -
    from that assms obtain b where "len = 2 * b" "0 < b" by (auto elim!: evenE)
    with that show ?thesis by (auto simp: h2_def)
  qed
  moreover have "h2 = h1" if "\<not> (even len \<and> h1 = (len - 2) div 2)"
    using that by (auto simp: h2_def)
  ultimately have h2: "h2 < len" "h1 \<le> h2"
    using P[of v] assms by fastforce+
  have lf2: "length f2 = length f"
    using P[of v] by (simp add: f2_def)
  have m2: "mset (f2[h2 := v]) = mset (f[h := v])"
  proof (cases "even len \<and> h1 = (len - 2) div 2")
    case True
    then have e: "f2 = f1[h1 := f1 ! h2]"
      by (simp add: f2_def h2_def)
    have "h1 < h2" "h2 < length f1"
      using True P[of v] h2 assms \<open>even len \<Longrightarrow> h1 = (len - 2) div 2 \<Longrightarrow> h2 = len - 1 \<and> h1 < h2\<close>
      by auto
    then have "mset (f1[h1 := f1 ! h2, h2 := v]) = mset (f1[h1 := v])"
      by (intro mset_update_swap) auto
    then show ?thesis using P[of v] by (simp only: e)
  next
    case False
    then have "f2 = f1" "h2 = h1"
      by (auto simp: f2_def h2_def)
    then show ?thesis using P[of v] by simp
  qed
  show "length (adjust_heap cmp f h len v) = length f"
    by (simp add: eq lf2)
  show "mset (adjust_heap cmp f h len v) = mset (f[h := v])"
    using h2 lf2 assms by (simp add: eq mset_push_heap_loop m2)
  show "adjust_heap cmp f h len v ! k = f ! k" if "len \<le> k" for k
  proof -
    have "push_heap_loop cmp f2 h2 h v ! k = f2 ! k"
      using that h2 by (intro nth_push_heap_loop_above) simp
    also have "f2 ! k = f1 ! k"
      using that P[of v] by (auto simp: f2_def)
    also have "\<dots> = f ! k" using that P[of v] by simp
    finally show ?thesis by (simp add: eq)
  qed
qed

lemma mset_pq_push: "mset (pq_push cmp c x) = add_mset x (mset c)"
  by (simp add: pq_push_def mset_push_heap_loop)

lemma mset_pq_pop:
  assumes "c \<noteq> []"
  shows "add_mset (hd c) (mset (pq_pop cmp c)) = mset c"
proof (cases "length c > 1")
  case True
  define n where "n = length c - 1"
  define c' where "c' = c[n := hd c]"
  define r where "r = adjust_heap cmp c' 0 n (last c)"
  have n: "0 < n" "n < length c" "length c' = length c"
    using True by (auto simp: n_def c'_def)
  have pre: "0 < n" "n \<le> length c'" using n by auto
  have A: "length r = length c" "mset r = mset (c'[0 := last c])" "r ! n = c' ! n"
    unfolding r_def
    using adjust_heap_props(1)[OF pre, of cmp "last c"] adjust_heap_props(2)[OF pre, of cmp "last c"]
      adjust_heap_props(3)[OF pre, of n cmp "last c"] n(3)
    by simp_all
  have sw: "c'[0 := last c] = c[n := c ! 0, 0 := c ! n]"
    using assms n by (simp add: c'_def hd_conv_nth last_conv_nth n_def)
  have "mset (c[n := c ! 0, 0 := c ! n]) = mset c"
    using n by (intro mset_swap) auto
  then have mr: "mset r = mset c"
    by (simp only: A(2) sw)
  have "r \<noteq> []" using A n by auto
  moreover have "last r = hd c"
    using A n \<open>r \<noteq> []\<close> by (simp add: last_conv_nth c'_def n_def)
  ultimately have "butlast r @ [hd c] = r"
    using append_butlast_last_id[of r] by simp
  then have "mset r = mset (butlast r @ [hd c])" by simp
  then have "mset r = add_mset (hd c) (mset (butlast r))" by simp
  then show ?thesis
    using True mr by (simp add: pq_pop_def r_def c'_def n_def)
next
  case False
  with assms obtain a where "c = [a]" by (cases c) auto
  then show ?thesis by (simp add: pq_pop_def)
qed

subsection \<open>Records\<close>

lemma set_response_static [simp]:
  "pid (set_response t p) = pid p"
  "arrivalTime (set_response t p) = arrivalTime p"
  "burstTime (set_response t p) = burstTime p"
  "remainingTime (set_response t p) = remainingTime p"
  "priority (set_response t p) = priority p"
  "completionTime (set_response t p) = completionTime p"
  by (simp_all add: set_response_def)

lemma finalize_fields [simp]:
  "pid (finalize t p) = pid p"
  "arrivalTime (finalize t p) = arrivalTime p"
  "burstTime (finalize t p) = burstTime p"
  "remainingTime (finalize t p) = remainingTime p"
  "priority (finalize t p) = priority p"
  "responseTime (finalize t p) = responseTime p"
  "completionTime (finalize t p) = t"
  "turnaroundTime (finalize t p) = t - arrivalTime p"
  "waitingTime (finalize t p) = t - arrivalTime p - burstTime p"
  by (simp_all add: finalize_def Let_def)

subsection \<open>The admission loop\<close>

lemma push_ok_pq_push: "push_ok (\<lambda>ps. pq_push (cmp ps))"
  by (simp add: push_ok_def mset_pq_push)

lemma push_ok_queue_push: "push_ok queue_push"
  by (simp add: push_ok_def queue_push_def)

lemma push_ok_ready_push: "push_ok (ready_push pol)"
  by (cases pol) (simp_all add: push_ok_pq_push push_ok_queue_push)

lemma admit_stop: "\<not> arrived s \<Longrightarrow> admit push s = s"
  by (subst admit.simps) (auto simp: arrived_def)

lemma admit_go:
  "arrived s \<Longrightarrow>
   admit push s = admit push (s\<lparr>pq := push (processes s) (pq s) (idx s), idx := idx s + 1\<rparr>)"
  by (subst admit.simps) (auto simp: arrived_def)

lemma admit_frame [simp]:
  "processes (admit push s) = processes s"
  "currentTime (admit push s) = currentTime s"
  "completed (admit push s) = completed s"
  by (induction push s rule: admit.induct; subst admit.simps; simp)+

lemma admit_props:
  "push_ok push \<Longrightarrow> idx s \<le> idx (admit push s)
     \<and> (idx s \<le> length (processes s) \<longrightarrow> idx (admit push s) \<le> length (processes s))
     \<and> (arrived s \<longrightarrow> idx s < idx (admit push s))
     \<and> \<not> arrived (admit push s)
     \<and> mset (pq (admit push s)) = mset (pq s) + mset [idx s ..< idx (admit push s)]
     \<and> (\<forall>j. idx s \<le> j \<and> j < idx (admit push s) \<longrightarrow>
           j < length (processes s) \<and> sint (arrivalTime (processes s ! j)) \<le> sint (currentTime s))"
proof (induction push s rule: admit.induct)
  case (1 push s)
  show ?case
  proof (cases "arrived s")
    case True
    define s1 where "s1 = s\<lparr>pq := push (processes s) (pq s) (idx s), idx := idx s + 1\<rparr>"
    have s1: "processes s1 = processes s" "currentTime s1 = currentTime s" "idx s1 = Suc (idx s)"
      "mset (pq s1) = add_mset (idx s) (mset (pq s))"
      using "1.prems" by (simp_all add: s1_def push_ok_def)
    have e: "admit push s = admit push s1"
      using True by (simp add: admit_go s1_def)
    have IH: "idx s1 \<le> idx (admit push s1)
     \<and> (idx s1 \<le> length (processes s1) \<longrightarrow> idx (admit push s1) \<le> length (processes s1))
     \<and> \<not> arrived (admit push s1)
     \<and> mset (pq (admit push s1)) = mset (pq s1) + mset [idx s1 ..< idx (admit push s1)]
     \<and> (\<forall>j. idx s1 \<le> j \<and> j < idx (admit push s1) \<longrightarrow>
           j < length (processes s1) \<and> sint (arrivalTime (processes s1 ! j)) \<le> sint (currentTime s1))"
      using "1.IH" "1.prems" True unfolding s1_def arrived_def by blast
    have lt: "idx s < idx (admit push s1)" using IH s1 by simp
    then have u: "[idx s ..< idx (admit push s1)] = idx s # [idx s1 ..< idx (admit push s1)]"
      using s1 by (simp add: upt_conv_Cons)
    have "\<forall>j. idx s \<le> j \<and> j < idx (admit push s1) \<longrightarrow>
            j < length (processes s) \<and> sint (arrivalTime (processes s ! j)) \<le> sint (currentTime s)"
    proof (intro allI impI)
      fix j assume j: "idx s \<le> j \<and> j < idx (admit push s1)"
      show "j < length (processes s) \<and> sint (arrivalTime (processes s ! j)) \<le> sint (currentTime s)"
      proof (cases "j = idx s")
        case True
        with \<open>arrived s\<close> show ?thesis by (simp add: arrived_def)
      next
        case False
        with j have "idx s1 \<le> j \<and> j < idx (admit push s1)" using s1 by simp
        with IH s1 show ?thesis by simp
      qed
    qed
    with IH lt u s1 True show ?thesis
      unfolding e by (auto simp: arrived_def)
  next
    case False
    then show ?thesis by (simp add: admit_stop)
  qed
qed

lemma admit_queue_push:
  "pq (admit queue_push s) = pq s @ [idx s ..< idx (admit queue_push s)]"
proof (induction queue_push s rule: admit.induct)
  case (1 s)
  show ?case
  proof (cases "arrived s")
    case True
    define s1 where "s1 = s\<lparr>pq := queue_push (processes s) (pq s) (idx s), idx := idx s + 1\<rparr>"
    have e: "admit queue_push s = admit queue_push s1"
      using True by (simp add: admit_go s1_def)
    have IH: "pq (admit queue_push s1) = pq s1 @ [idx s1 ..< idx (admit queue_push s1)]"
      using "1.hyps" True unfolding s1_def arrived_def by blast
    have "idx s1 \<le> idx (admit queue_push s1)"
      using admit_props[OF push_ok_queue_push, of s1] by simp
    then have "[idx s ..< idx (admit queue_push s1)] = idx s # [idx s1 ..< idx (admit queue_push s1)]"
      by (simp add: upt_conv_Cons s1_def)
    then show ?thesis
      unfolding e IH by (simp add: s1_def queue_push_def)
  next
    case False
    then show ?thesis by (simp add: admit_stop)
  qed
qed

subsection \<open>The while loop\<close>

lemma loop_total:
  assumes step: "\<And>s. I s \<Longrightarrow> completed s < length (processes s) \<Longrightarrow>
                   \<exists>s'. body s = Inr s' \<and> I s' \<and> m s' < (m s :: nat)"
  shows "I s \<Longrightarrow> m s \<le> fuel \<Longrightarrow>
         \<exists>s'. loop body fuel s = Some (Inr s') \<and> I s' \<and> \<not> completed s' < length (processes s')"
proof (induction fuel arbitrary: s)
  case 0
  have "\<not> completed s < length (processes s)"
  proof
    assume "completed s < length (processes s)"
    from step[OF "0.prems"(1) this] "0.prems"(2) show False by auto
  qed
  with "0.prems" show ?case by (subst loop.simps) simp
next
  case (Suc k)
  show ?case
  proof (cases "completed s < length (processes s)")
    case True
    from step[OF Suc.prems(1) True] obtain s' where s': "body s = Inr s'" "I s'" "m s' < m s"
      by blast
    with Suc.prems have "m s' \<le> k" by simp
    from Suc.IH[OF s'(2) this] show ?thesis
      using True s'(1) by (subst loop.simps) simp
  next
    case False
    with Suc.prems show ?thesis by (subst loop.simps) simp
  qed
qed

lemma loop_partial:
  assumes step: "\<And>s. I s \<Longrightarrow> completed s < length (processes s) \<Longrightarrow>
                   \<exists>s'. body s = Inr s' \<and> I s'"
  shows "I s \<Longrightarrow> loop body fuel s = Some r \<Longrightarrow>
         \<exists>s'. r = Inr s' \<and> I s' \<and> \<not> completed s' < length (processes s')"
proof (induction fuel arbitrary: s)
  case 0
  then show ?case
    by (subst (asm) loop.simps) (auto split: if_splits)
next
  case (Suc k)
  show ?case
  proof (cases "completed s < length (processes s)")
    case True
    from step[OF Suc.prems(1) True] obtain s' where s': "body s = Inr s'" "I s'"
      by blast
    have "loop body k s' = Some r"
      using Suc.prems(2) True s'(1) by (subst (asm) loop.simps) simp
    from Suc.IH[OF s'(2) this] show ?thesis .
  next
    case False
    with Suc.prems show ?thesis
      by (subst (asm) loop.simps) auto
  qed
qed

lemma iterate_inv:
  assumes step: "\<And>s. I s \<Longrightarrow> completed s < length (processes s) \<Longrightarrow>
                   \<exists>s'. body s = Inr s' \<and> I s'"
  shows "I s \<Longrightarrow> iterate body k s = Some t \<Longrightarrow> I t"
proof (induction k arbitrary: s)
  case 0
  then show ?case by simp
next
  case (Suc k)
  from Suc.prems(2) have c: "completed s < length (processes s)"
    by (simp split: if_splits)
  from step[OF Suc.prems(1) c] obtain s' where s': "body s = Inr s'" "I s'"
    by blast
  with Suc.prems(2) c have "iterate body k s' = Some t" by simp
  from Suc.IH[OF s'(2) this] show ?case .
qed

subsection \<open>The count and the measure\<close>

lemma m1_le: "m1 s \<le> 2 * (length (processes s) - idx s) + 2 * (length (processes s) - completed s) + 1"
  by (simp add: m1_def)

lemma m1_arrived:
  "arrived s \<Longrightarrow> m1 s = 2 * (length (processes s) - idx s) + 2 * (length (processes s) - completed s)"
  by (simp add: m1_def)

lemma m1_not_arrived:
  "\<not> arrived s \<Longrightarrow>
   m1 s = 2 * (length (processes s) - idx s) + 2 * (length (processes s) - completed s) + 1"
  by (simp add: m1_def)

text \<open>What the admission loop does to the count.\<close>

lemma admit_cnt:
  assumes "push_ok push" "cnt_inv s"
  shows "cnt_inv (admit push s)"
    and "length (pq (admit push s)) + idx s = length (pq s) + idx (admit push s)"
proof -
  note P = admit_props[OF assms(1), of s]
  have "mset (pq (admit push s)) = mset (pq s @ [idx s ..< idx (admit push s)])"
    using P by simp
  then have "length (pq (admit push s)) = length (pq s @ [idx s ..< idx (admit push s)])"
    by (rule mset_eq_length)
  then show l: "length (pq (admit push s)) + idx s = length (pq s) + idx (admit push s)"
    using P by simp
  show "cnt_inv (admit push s)"
    using assms(2) P l by (simp add: cnt_inv_def)
qed

lemma m1_after_admit:
  assumes "push_ok push" "idx s \<le> length (processes s)"
  shows "2 * (length (processes s) - idx (admit push s))
         + 2 * (length (processes s) - completed s) + 1 \<le> m1 s"
proof (cases "arrived s")
  case True
  then have "idx s < idx (admit push s)" "idx (admit push s) \<le> length (processes s)"
    using admit_props[OF assms(1), of s] assms(2) by auto
  then show ?thesis using True by (simp add: m1_arrived)
next
  case False
  then show ?thesis by (simp add: admit_stop m1_not_arrived)
qed

lemma length_pq_pop: "c \<noteq> [] \<Longrightarrow> Suc (length (pq_pop cmp c)) = length c"
  using mset_pq_pop[of c cmp] by (metis size_add_mset size_mset)

lemma fast_forward_step:
  assumes "push_ok push" "cnt_inv s" "completed s < length (processes s)"
    and "pq (admit push s) = []"
  shows "\<exists>s'. fast_forward (admit push s) = Inr s' \<and> cnt_inv s' \<and> processes s' = processes s
           \<and> completed s' = completed s \<and> m1 s' < m1 s"
proof -
  define s1 where "s1 = admit push s"
  have c1: "cnt_inv s1" and l: "length (pq s1) + idx s = length (pq s) + idx s1"
    using admit_cnt[OF assms(1,2)] by (simp_all add: s1_def)
  have i: "idx s1 < length (processes s1)"
    using c1 assms(3,4) by (simp add: cnt_inv_def s1_def)
  define s' where "s' = s1\<lparr>currentTime := arrivalTime (processes s1 ! idx s1)\<rparr>"
  have ff: "fast_forward s1 = Inr s'"
    using i by (simp add: fast_forward_def s'_def)
  have "arrived s'" using i by (simp add: arrived_def s'_def)
  then have "m1 s' = 2 * (length (processes s) - idx s1) + 2 * (length (processes s) - completed s)"
    by (simp add: m1_arrived s'_def s1_def)
  moreover have "2 * (length (processes s) - idx s1) + 2 * (length (processes s) - completed s) + 1 \<le> m1 s"
    using m1_after_admit[OF assms(1)] assms(2) by (simp add: cnt_inv_def s1_def)
  ultimately have "m1 s' < m1 s" by simp
  moreover have "cnt_inv s'" using c1 by (simp add: cnt_inv_def s'_def)
  moreover have "processes s' = processes s" "completed s' = completed s"
    by (simp_all add: s'_def s1_def)
  ultimately show ?thesis
    using ff unfolding s1_def by blast
qed

lemma np_body_step:
  assumes "cnt_inv s" "completed s < length (processes s)"
  shows "\<exists>s'. np_body cmp s = Inr s' \<and> cnt_inv s' \<and> length (processes s') = length (processes s)
           \<and> m1 s' < m1 s"
proof -
  let ?push = "\<lambda>ps. pq_push (cmp ps)"
  define s1 where "s1 = admit ?push s"
  note ok = push_ok_pq_push[of cmp]
  have c1: "cnt_inv s1"
    using admit_cnt[OF ok assms(1)] by (simp_all add: s1_def)
  show ?thesis
  proof (cases "pq s1 = []")
    case True
    from fast_forward_step[OF ok assms] True obtain s' where
      "fast_forward s1 = Inr s'" "cnt_inv s'" "processes s' = processes s" "m1 s' < m1 s"
      unfolding s1_def by blast
    then show ?thesis
      using True by (simp add: np_body_def s1_def[symmetric])
  next
    case False
    define p where "p = hd (pq s1)"
    define r where "r = finalize (currentTime s1 + burstTime (set_response (currentTime s1) (processes s1 ! p)))
                          (set_response (currentTime s1) (processes s1 ! p))"
    define s' where "s' = s1\<lparr>processes := (processes s1)[p := r], pq := pq_pop (cmp (processes s1)) (pq s1),
                  currentTime := completionTime r, completed := completed s1 + 1\<rparr>"
    have b: "np_body cmp s = Inr s'"
      using False by (simp add: np_body_def s1_def[symmetric] Let_def s'_def r_def p_def)
    have c': "cnt_inv s'"
      using c1 length_pq_pop[OF False, of "cmp (processes s1)"] by (simp add: cnt_inv_def s'_def)
    have "m1 s' \<le> 2 * (length (processes s) - idx s1) + 2 * (length (processes s) - Suc (completed s)) + 1"
      using m1_le[of s'] by (simp add: s'_def s1_def)
    moreover have "2 * (length (processes s) - idx s1) + 2 * (length (processes s) - completed s) + 1 \<le> m1 s"
      using m1_after_admit[OF ok] assms(1) by (simp add: cnt_inv_def s1_def)
    ultimately have "m1 s' < m1 s" using assms(2) by simp
    with b c' show ?thesis by (simp add: s'_def s1_def)
  qed
qed

lemma admit_length:
  "push_ok push \<Longrightarrow> length (pq (admit push s)) + idx s = length (pq s) + idx (admit push s)"
proof -
  assume ok: "push_ok push"
  note P = admit_props[OF ok, of s]
  have "mset (pq (admit push s)) = mset (pq s @ [idx s ..< idx (admit push s)])"
    using P by simp
  then have "length (pq (admit push s)) = length (pq s @ [idx s ..< idx (admit push s)])"
    by (rule mset_eq_length)
  then show ?thesis using P by simp
qed

lemma length_pq_push: "length (pq_push cmp c x) = Suc (length c)"
  by (simp add: pq_push_def)

lemma arrivalTime_nth_update:
  "arrivalTime r = arrivalTime (ps ! p) \<Longrightarrow> arrivalTime (ps[p := r] ! j) = arrivalTime (ps ! j)"
  by (cases "p < length ps") (auto simp: nth_list_update list_update_beyond not_less)

text \<open>The loop bodies, with their local variables named.\<close>

lemma np_body_empty:
  "pq (admit (\<lambda>ps. pq_push (cmp ps)) s) = [] \<Longrightarrow>
   np_body cmp s = fast_forward (admit (\<lambda>ps. pq_push (cmp ps)) s)"
  by (simp add: np_body_def)

lemma np_body_dispatch:
  assumes "s1 = admit (\<lambda>ps. pq_push (cmp ps)) s" "pq s1 \<noteq> []" "p = hd (pq s1)"
    "q = pq_pop (cmp (processes s1)) (pq s1)"
    "r = set_response (currentTime s1) (processes s1 ! p)"
    "r' = finalize (currentTime s1 + burstTime r) r"
  shows "np_body cmp s =
     Inr (s1\<lparr>processes := (processes s1)[p := r'], pq := q,
              currentTime := completionTime r', completed := completed s1 + 1\<rparr>)"
  using assms(2) unfolding assms(1,3-) np_body_def Let_def by (simp only: if_False)

lemma pr_body_empty:
  "pq (admit (\<lambda>ps. pq_push (cmp ps)) s) = [] \<Longrightarrow>
   pr_body cmp s = fast_forward (admit (\<lambda>ps. pq_push (cmp ps)) s)"
  by (simp add: pr_body_def)

lemma pr_body_dispatch:
  assumes "s1 = admit (\<lambda>ps. pq_push (cmp ps)) s" "pq s1 \<noteq> []" "p = hd (pq s1)"
    "q = pq_pop (cmp (processes s1)) (pq s1)"
    "r = set_response (currentTime s1) (processes s1 ! p)"
    "e = (if idx s1 < length (processes s1)
          then smin (remainingTime r) (arrivalTime (processes s1 ! idx s1) - currentTime s1)
          else remainingTime r)"
    "r1 = r\<lparr>remainingTime := remainingTime r - e\<rparr>"
    "now = currentTime s1 + e"
  shows "pr_body cmp s =
     (if remainingTime r1 = 0
      then Inr (s1\<lparr>processes := (processes s1)[p := finalize now r1], pq := q,
                 currentTime := now, completed := completed s1 + 1\<rparr>)
      else Inr (s1\<lparr>processes := (processes s1)[p := r1],
                 pq := pq_push (cmp ((processes s1)[p := r1])) q p, currentTime := now\<rparr>))"
  using assms(2) unfolding assms(1,3-) pr_body_def Let_def by (simp only: if_False)

lemma rr_body_empty:
  "pq (admit queue_push s) = [] \<Longrightarrow> rr_body tq s = fast_forward (admit queue_push s)"
  by (simp add: rr_body_def)

lemma rr_body_dispatch:
  assumes "s1 = admit queue_push s" "pq s1 \<noteq> []" "p = hd (pq s1)"
    "r = set_response (currentTime s1) (processes s1 ! p)"
    "e = smin tq (remainingTime r)"
    "r1 = r\<lparr>remainingTime := remainingTime r - e\<rparr>"
    "now = currentTime s1 + e"
    "s2 = admit queue_push
            (s1\<lparr>processes := (processes s1)[p := r1], pq := tl (pq s1), currentTime := now\<rparr>)"
  shows "rr_body tq s =
     (if sint (remainingTime r1) > 0
      then Inr (s2\<lparr>pq := queue_push (processes s2) (pq s2) p\<rparr>)
      else Inr (s2\<lparr>processes := (processes s2)[p := finalize now r1],
                  completed := completed s2 + 1\<rparr>))"
  using assms(2) unfolding assms(1,3-) rr_body_def Let_def by (simp only: if_False)

lemma pr_body_step:
  assumes "cnt_inv s" "completed s < length (processes s)"
  shows "\<exists>s'. pr_body cmp s = Inr s' \<and> cnt_inv s' \<and> length (processes s') = length (processes s)
           \<and> m1 s' < m1 s"
proof -
  let ?push = "\<lambda>ps. pq_push (cmp ps)"
  define s1 where "s1 = admit ?push s"
  note ok = push_ok_pq_push[of cmp]
  have c1: "cnt_inv s1"
    using admit_cnt[OF ok assms(1)] by (simp_all add: s1_def)
  have after: "2 * (length (processes s) - idx s1) + 2 * (length (processes s) - completed s) + 1 \<le> m1 s"
    using m1_after_admit[OF ok] assms(1) by (simp add: cnt_inv_def s1_def)
  show ?thesis
  proof (cases "pq s1 = []")
    case True
    from fast_forward_step[OF ok assms] True obtain s' where
      "fast_forward s1 = Inr s'" "cnt_inv s'" "processes s' = processes s" "m1 s' < m1 s"
      unfolding s1_def by blast
    then show ?thesis
      using True by (simp add: pr_body_def s1_def[symmetric])
  next
    case False
    define p where "p = hd (pq s1)"
    define q where "q = pq_pop (cmp (processes s1)) (pq s1)"
    define r where "r = set_response (currentTime s1) (processes s1 ! p)"
    define e where "e = (if idx s1 < length (processes s1)
               then smin (remainingTime r) (arrivalTime (processes s1 ! idx s1) - currentTime s1)
               else remainingTime r)"
    define r1 where "r1 = r\<lparr>remainingTime := remainingTime r - e\<rparr>"
    define now where "now = currentTime s1 + e"
    have lq: "Suc (length q) = length (pq s1)"
      using length_pq_pop[OF False] by (simp add: q_def)
    show ?thesis
    proof (cases "remainingTime r1 = 0")
      case True
      define s' where "s' = s1\<lparr>processes := (processes s1)[p := finalize now r1], pq := q,
                      currentTime := now, completed := completed s1 + 1\<rparr>"
      have b: "pr_body cmp s = Inr s'"
        using pr_body_dispatch[OF s1_def False p_def q_def r_def e_def r1_def now_def] True
        by (simp add: s'_def)
      have c': "cnt_inv s'"
        using c1 lq by (simp add: cnt_inv_def s'_def)
      have "m1 s' \<le> 2 * (length (processes s) - idx s1) + 2 * (length (processes s) - Suc (completed s)) + 1"
        using m1_le[of s'] by (simp add: s'_def s1_def)
      with after have "m1 s' < m1 s" using assms(2) by simp
      with b c' show ?thesis by (simp add: s'_def s1_def)
    next
      case nz: False
      define s' where "s' = s1\<lparr>processes := (processes s1)[p := r1],
                      pq := pq_push (cmp ((processes s1)[p := r1])) q p, currentTime := now\<rparr>"
      have b: "pr_body cmp s = Inr s'"
        using pr_body_dispatch[OF s1_def False p_def q_def r_def e_def r1_def now_def] nz
        by (simp add: s'_def)
      have "length (pq s') = length (pq s1)"
        using lq by (simp add: s'_def length_pq_push)
      then have c': "cnt_inv s'"
        using c1 by (simp add: cnt_inv_def s'_def)
      have "e \<noteq> remainingTime r" using nz by (simp add: r1_def)
      then have i: "idx s1 < length (processes s1)"
        and eg: "e = arrivalTime (processes s1 ! idx s1) - currentTime s1"
        by (auto simp: e_def smin_def split: if_splits)
      have "arrivalTime r1 = arrivalTime (processes s1 ! p)"
        by (simp add: r1_def r_def)
      then have "arrivalTime ((processes s1)[p := r1] ! idx s1) = arrivalTime (processes s1 ! idx s1)"
        by (rule arrivalTime_nth_update)
      then have "arrived s'"
        using i eg by (simp add: arrived_def s'_def now_def)
      then have "m1 s' = 2 * (length (processes s) - idx s1) + 2 * (length (processes s) - completed s)"
        by (simp add: m1_arrived s'_def s1_def)
      with after have "m1 s' < m1 s" by simp
      with b c' show ?thesis by (simp add: s'_def s1_def)
    qed
  qed
qed

lemma rr_body_step:
  assumes "cnt_inv s" "completed s < length (processes s)"
  shows "\<exists>s'. rr_body tq s = Inr s' \<and> cnt_inv s' \<and> length (processes s') = length (processes s)"
proof -
  define s1 where "s1 = admit queue_push s"
  note ok = push_ok_queue_push
  have c1: "cnt_inv s1"
    using admit_cnt[OF ok assms(1)] by (simp_all add: s1_def)
  show ?thesis
  proof (cases "pq s1 = []")
    case True
    from fast_forward_step[OF ok assms] True obtain s' where
      "fast_forward s1 = Inr s'" "cnt_inv s'" "processes s' = processes s"
      unfolding s1_def by blast
    then show ?thesis
      using True by (simp add: rr_body_def s1_def[symmetric])
  next
    case False
    define p where "p = hd (pq s1)"
    define r where "r = set_response (currentTime s1) (processes s1 ! p)"
    define e where "e = smin tq (remainingTime r)"
    define r1 where "r1 = r\<lparr>remainingTime := remainingTime r - e\<rparr>"
    define now where "now = currentTime s1 + e"
    define s2 where "s2 = admit queue_push
       (s1\<lparr>processes := (processes s1)[p := r1], pq := tl (pq s1), currentTime := now\<rparr>)"
    have l2: "length (pq s2) + idx s1 = length (tl (pq s1)) + idx s2"
      using admit_length[OF ok, of "s1\<lparr>processes := (processes s1)[p := r1], pq := tl (pq s1), currentTime := now\<rparr>"]
      by (simp add: s2_def)
    have i2: "idx s2 \<le> length (processes s1)" "idx s1 \<le> idx s2"
      using admit_props[OF ok, of "s1\<lparr>processes := (processes s1)[p := r1], pq := tl (pq s1), currentTime := now\<rparr>"]
        c1 by (simp_all add: s2_def cnt_inv_def)
    have f2: "length (processes s2) = length (processes s)" "completed s2 = completed s1"
      by (simp_all add: s2_def s1_def)
    have lt: "Suc (length (tl (pq s1))) = length (pq s1)"
      using False by (cases "pq s1") simp_all
    show ?thesis
    proof (cases "sint (remainingTime r1) > 0")
      case True
      define s' where "s' = s2\<lparr>pq := queue_push (processes s2) (pq s2) p\<rparr>"
      have b: "rr_body tq s = Inr s'"
        using rr_body_dispatch[OF s1_def False p_def r_def e_def r1_def now_def s2_def] True
        by (simp add: s'_def)
      have "cnt_inv s'"
        using c1 l2 i2 f2 lt by (simp add: cnt_inv_def s'_def queue_push_def s1_def)
      with b f2 show ?thesis by (simp add: s'_def)
    next
      case nz: False
      define s' where "s' = s2\<lparr>processes := (processes s2)[p := finalize now r1],
                            completed := completed s2 + 1\<rparr>"
      have b: "rr_body tq s = Inr s'"
        using rr_body_dispatch[OF s1_def False p_def r_def e_def r1_def now_def s2_def] nz
        by (simp add: s'_def)
      have "cnt_inv s'"
        using c1 l2 i2 f2 lt by (simp add: cnt_inv_def s'_def s1_def)
      with b f2 show ?thesis by (simp add: s'_def)
    qed
  qed
qed

subsection \<open>The schedulers and their loops\<close>

lemma simulate_loop:
  "loop_body pol = Some b \<Longrightarrow> simulate pol fuel ps = finish (loop b fuel (start pol ps))"
  by (cases pol) auto

lemma simulate_FCFS:
  "loop_body pol = None \<Longrightarrow> simulate pol fuel ps = Some (Inr (fcfs_loop 0 (sort_by_arrival ps)))"
  by (cases pol) auto

lemma length_fcfs_loop [simp]: "length (fcfs_loop t ps) = length ps"
  by (induction ps arbitrary: t) (auto simp: Let_def split: prod.splits)

lemma length_sort_by_arrival [simp]: "length (sort_by_arrival ps) = length ps"
  by (simp add: sort_by_arrival_def)

lemma length_start [simp]: "length (processes (start pol ps)) = length ps"
  by (cases pol) (simp_all add: init_def)

lemma cnt_inv_start: "cnt_inv (start pol ps)"
  by (cases pol) (simp_all add: init_def cnt_inv_def)

lemma m1_start: "m1 (start pol ps) \<le> 4 * length ps + 1"
  using m1_le[of "start pol ps"] by (cases pol) (simp_all add: init_def)

text \<open>Every loop body keeps the count and the length of the vector, and never fails.\<close>

lemma body_cnt_step:
  assumes "loop_body pol = Some b" "cnt_len n s" "completed s < length (processes s)"
  shows "\<exists>s'. b s = Inr s' \<and> cnt_len n s'"
proof (cases pol)
  case FCFS
  with assms show ?thesis by simp
next
  case SJF
  with assms np_body_step[of s sjf_cmp] show ?thesis by (auto simp: cnt_len_def)
next
  case SRTF
  with assms pr_body_step[of s srtf_cmp] show ?thesis by (auto simp: cnt_len_def)
next
  case (RoundRobin q)
  with assms rr_body_step[of s q] show ?thesis by (auto simp: cnt_len_def)
next
  case Priority
  with assms np_body_step[of s priority_cmp] show ?thesis by (auto simp: cnt_len_def)
next
  case PreemptivePriority
  with assms pr_body_step[of s preemptive_priority_cmp] show ?thesis by (auto simp: cnt_len_def)
qed

lemma body_cnt_m1_step:
  assumes "loop_body pol = Some b" "\<forall>q. pol \<noteq> RoundRobin q"
    "cnt_len n s" "completed s < length (processes s)"
  shows "\<exists>s'. b s = Inr s' \<and> cnt_len n s' \<and> m1 s' < m1 s"
proof (cases pol)
  case FCFS
  with assms show ?thesis by simp
next
  case SJF
  with assms np_body_step[of s sjf_cmp] show ?thesis by (auto simp: cnt_len_def)
next
  case SRTF
  with assms pr_body_step[of s srtf_cmp] show ?thesis by (auto simp: cnt_len_def)
next
  case (RoundRobin q)
  with assms show ?thesis by simp
next
  case Priority
  with assms np_body_step[of s priority_cmp] show ?thesis by (auto simp: cnt_len_def)
next
  case PreemptivePriority
  with assms pr_body_step[of s preemptive_priority_cmp] show ?thesis by (auto simp: cnt_len_def)
qed

lemma simulate_no_error: "simulate pol fuel ps \<noteq> Some (Inl e)"
proof (cases "loop_body pol")
  case None
  then show ?thesis by (simp add: simulate_FCFS)
next
  case (Some b)
  show ?thesis
  proof
    assume a: "simulate pol fuel ps = Some (Inl e)"
    then obtain r where r: "loop b fuel (start pol ps) = Some r" "map_sum (\<lambda>e. e) processes r = Inl e"
      by (auto simp: simulate_loop[OF Some] finish_def)
    have "cnt_len (length ps) (start pol ps)"
      by (simp add: cnt_len_def cnt_inv_start)
    from loop_partial[where I = "cnt_len (length ps)", OF body_cnt_step[OF Some] this r(1)]
    obtain s' where "r = Inr s'" by blast
    with r(2) show False by simp
  qed
qed

lemma simulate_terminates_any_input:
  assumes "\<forall>q. pol \<noteq> RoundRobin q" "4 * length ps + 1 \<le> fuel"
  shows "\<exists>res. simulate pol fuel ps = Some (Inr res) \<and> length res = length ps"
proof (cases "loop_body pol")
  case None
  then show ?thesis by (simp add: simulate_FCFS)
next
  case (Some b)
  have I: "cnt_len (length ps) (start pol ps)"
    by (simp add: cnt_len_def cnt_inv_start)
  have m: "m1 (start pol ps) \<le> fuel"
    using m1_start[of pol ps] assms(2) by simp
  from loop_total[where I = "cnt_len (length ps)" and m = m1,
      OF body_cnt_m1_step[OF Some assms(1)] I m]
  obtain s' where "loop b fuel (start pol ps) = Some (Inr s')" "cnt_len (length ps) s'"
    by blast
  then show ?thesis
    by (simp add: simulate_loop[OF Some] finish_def cnt_len_def)
qed

lemma decision_point_cnt:
  assumes "decision_point pol k ps = Some s"
  shows "cnt_inv s \<and> completed s < length (processes s) \<and> length (processes s) = length ps"
proof -
  from assms obtain b t where b: "loop_body pol = Some b"
    and t: "iterate b k (start pol ps) = Some t" "completed t < length (processes t)"
    and s: "s = admit (ready_push pol) t"
    by (auto simp: decision_point_def split: option.splits if_splits)
  have "cnt_len (length ps) (start pol ps)"
    by (simp add: cnt_len_def cnt_inv_start)
  from iterate_inv[where I = "cnt_len (length ps)", OF body_cnt_step[OF b] this t(1)]
  have "cnt_len (length ps) t" .
  then show ?thesis
    using admit_cnt(1)[OF push_ok_ready_push, of t pol] t(2) s by (simp add: cnt_len_def)
qed

text \<open>A quantum of zero is not rejected either: the loop then runs forever.\<close>

lemma rr_quantum_zero_diverges: "simulate (RoundRobin 0) fuel [Process 1 0 1 0] = None"
proof -
  define s1 where "s1 = \<lparr>processes = [(Process 1 0 1 0)\<lparr>responseTime := 0\<rparr>], pq = [0],
                         currentTime = 0, completed = 0, idx = 1\<rparr>"
  have fixed: "rr_body 0 s1 = Inr s1"
    unfolding s1_def by code_simp
  have c1: "completed s1 < length (processes s1)"
    by (simp add: s1_def)
  have stuck: "loop (rr_body 0) k s1 = None" for k
  proof (induction k)
    case 0
    show ?case using c1 by (subst loop.simps) simp
  next
    case (Suc k)
    then show ?case using c1 fixed by (subst loop.simps) simp
  qed
  have first: "rr_body 0 (init [Process 1 0 1 0]) = Inr s1"
    unfolding s1_def by code_simp
  have "loop (rr_body 0) fuel (init [Process 1 0 1 0]) = None"
  proof (cases fuel)
    case 0
    then show ?thesis by (subst loop.simps) (simp add: init_def)
  next
    case (Suc k)
    then show ?thesis using first stuck[of k] by (subst loop.simps) (simp add: init_def)
  qed
  then show ?thesis by (simp add: finish_def)
qed

subsection \<open>The invariant of the loops on a valid input\<close>

lemma valid_nth: "valid ps \<Longrightarrow> j < length ps \<Longrightarrow> valid_process (ps ! j)"
  by (simp add: valid_def list_all_length)

lemma sinv_mset_cong:
  assumes "sinv R D L ps s" "mset (pq t) = mset (pq s)" "processes t = processes s"
    "currentTime t = currentTime s" "completed t = completed s" "idx t = idx s"
  shows "sinv R D L ps t"
proof -
  have "set (pq t) = set (pq s)" "length (pq t) = length (pq s)" "distinct (pq t) = distinct (pq s)"
    using mset_eq_setD[OF assms(2)] mset_eq_length[OF assms(2)]
      mset_eq_imp_distinct_iff[OF assms(2)] by blast+
  with assms(1,3-) show ?thesis
    by (simp add: sinv_def cnt_inv_def)
qed

lemma sinv_init: "sinv R D L ps (init ps)"
  by (simp add: sinv_def init_def cnt_inv_def same_static_def)

text \<open>Admitting the processes \<open>idx s, \<dots>, k - 1\<close>, all arrived.\<close>

lemma sinv_admitted:
  assumes v: "valid ps" and i: "sinv R D L ps s"
    and fr: "\<And>p t. valid_process p \<Longrightarrow> sint (arrivalTime p) \<le> t \<Longrightarrow> R t p"
    and k: "idx s \<le> k" "k \<le> length ps"
    and a: "\<forall>j. idx s \<le> j \<and> j < k \<longrightarrow>
                sint (arrivalTime (processes s ! j)) \<le> sint (currentTime s)"
  shows "sinv R D L ps (s\<lparr>pq := pq s @ [idx s ..< k], idx := k\<rparr>)"
proof -
  let ?t = "s\<lparr>pq := pq s @ [idx s ..< k], idx := k\<rparr>"
  have len: "length (processes s) = length ps"
    and st: "\<forall>j<length ps. same_static (processes s ! j) (ps ! j)"
    and cnt: "cnt_inv s" and d: "distinct (pq s)" and sub: "\<forall>j\<in>set (pq s). j < idx s"
    and fresh: "\<forall>j<length ps. idx s \<le> j \<longrightarrow> processes s ! j = ps ! j"
    and rdy: "\<forall>j\<in>set (pq s). R (sint (currentTime s)) (processes s ! j)"
    and dn: "\<forall>j<idx s. j \<notin> set (pq s) \<longrightarrow> D (sint (currentTime s)) (processes s ! j)"
    and lst: "completed s = 0 \<or>
      (\<exists>j<idx s. j \<notin> set (pq s) \<and> L (completed s) (processes s ! j))"
    using i unfolding sinv_def by blast+
  have c': "cnt_inv ?t"
    using cnt k len by (simp add: cnt_inv_def)
  have d': "distinct (pq ?t)"
    using d sub by auto
  have sub': "\<forall>j\<in>set (pq ?t). j < idx ?t"
    using sub k by auto
  have fresh': "\<forall>j<length ps. idx ?t \<le> j \<longrightarrow> processes ?t ! j = ps ! j"
    using fresh k by simp
  have rdy': "\<forall>j\<in>set (pq ?t). R (sint (currentTime ?t)) (processes ?t ! j)"
  proof
    fix j assume "j \<in> set (pq ?t)"
    then consider "j \<in> set (pq s)" | "idx s \<le> j" "j < k" by auto
    then show "R (sint (currentTime ?t)) (processes ?t ! j)"
    proof cases
      case 1
      with rdy show ?thesis by simp
    next
      case 2
      then have e: "processes s ! j = ps ! j" and vp: "valid_process (ps ! j)"
        using fresh k v by (simp_all add: valid_nth)
      from a 2 have "sint (arrivalTime (processes s ! j)) \<le> sint (currentTime s)" by blast
      with e vp show ?thesis by (simp add: fr)
    qed
  qed
  have dn': "\<forall>j<idx ?t. j \<notin> set (pq ?t) \<longrightarrow> D (sint (currentTime ?t)) (processes ?t ! j)"
    using dn by auto
  have lst': "completed ?t = 0 \<or>
      (\<exists>j<idx ?t. j \<notin> set (pq ?t) \<and> L (completed ?t) (processes ?t ! j))"
  proof (cases "completed s = 0")
    case False
    with lst obtain j where "j < idx s" "j \<notin> set (pq s)" "L (completed s) (processes s ! j)"
      by blast
    then have "j < idx ?t \<and> j \<notin> set (pq ?t) \<and> L (completed ?t) (processes ?t ! j)"
      using k by simp
    then show ?thesis by blast
  qed simp
  show ?thesis
    unfolding sinv_def
    using len st c' d' sub' fresh' rdy' dn' lst' by simp
qed

lemma sinv_admit:
  assumes "push_ok push" "valid ps" "sinv R D L ps s"
    and fr: "\<And>p t. valid_process p \<Longrightarrow> sint (arrivalTime p) \<le> t \<Longrightarrow> R t p"
  shows "sinv R D L ps (admit push s)"
proof -
  note P = admit_props[OF assms(1), of s]
  have len: "length (processes s) = length ps" "idx s \<le> length (processes s)"
    using assms(3) by (simp_all add: sinv_def cnt_inv_def)
  let ?k = "idx (admit push s)"
  have "sinv R D L ps (s\<lparr>pq := pq s @ [idx s ..< ?k], idx := ?k\<rparr>)"
    using P len by (intro sinv_admitted[OF assms(2,3) fr]) auto
  then show ?thesis
    by (rule sinv_mset_cong) (use P in simp_all)
qed

lemma sinv_fast_forward:
  assumes "sinv R D L ps s" "pq s = []"
    and DT: "\<And>x. D (sint (currentTime s)) x \<Longrightarrow> D (sint c) x"
  shows "sinv R D L ps (s\<lparr>currentTime := c\<rparr>)"
  using assms(1,2) DT unfolding sinv_def cnt_inv_def by auto

lemma sinv_pq_facts:
  assumes "sinv R D L ps s" "p \<in> set (pq s)"
  shows "p < length ps" "p < length (processes s)" "R (sint (currentTime s)) (processes s ! p)"
    "same_static (processes s ! p) (ps ! p)"
  using assms unfolding sinv_def cnt_inv_def by force+

text \<open>The process \<open>p\<close> leaves the ready set completed.\<close>

lemma sinv_complete:
  assumes i: "sinv R D L ps s" and p: "p \<in> set (pq s)" and q: "add_mset p (mset q) = mset (pq s)"
    and r: "same_static r (processes s ! p)" "D (sint now) r" "L (completed s + 1) r"
    and RT: "\<And>x. R (sint (currentTime s)) x \<Longrightarrow> R (sint now) x"
    and DT: "\<And>x. D (sint (currentTime s)) x \<Longrightarrow> D (sint now) x"
  shows "sinv R D L ps (s\<lparr>processes := (processes s)[p := r], pq := q, currentTime := now,
                   completed := completed s + 1\<rparr>)"
proof -
  let ?t = "s\<lparr>processes := (processes s)[p := r], pq := q, currentTime := now,
                   completed := completed s + 1\<rparr>"
  have len: "length (processes s) = length ps"
    and st: "\<forall>j<length ps. same_static (processes s ! j) (ps ! j)"
    and cnt: "cnt_inv s" and d: "distinct (pq s)" and sub: "\<forall>j\<in>set (pq s). j < idx s"
    and fresh: "\<forall>j<length ps. idx s \<le> j \<longrightarrow> processes s ! j = ps ! j"
    and rdy: "\<forall>j\<in>set (pq s). R (sint (currentTime s)) (processes s ! j)"
    and dn: "\<forall>j<idx s. j \<notin> set (pq s) \<longrightarrow> D (sint (currentTime s)) (processes s ! j)"
    using i unfolding sinv_def by blast+
  have pl: "p < length ps" "p < idx s" using p sub cnt len by (auto simp: cnt_inv_def)
  have m: "mset (pq s) = mset (p # q)" using q by simp
  have dq: "distinct (p # q)"
    using mset_eq_imp_distinct_iff[OF m] d by blast
  have sq: "set (pq s) = set (p # q)"
    using mset_eq_setD[OF m] .
  have lq: "length (pq s) = length (p # q)"
    using mset_eq_length[OF m] .
  have st': "\<forall>j<length ps. same_static (processes ?t ! j) (ps ! j)"
    using st r(1) pl len by (auto simp: nth_list_update same_static_def)
  have c': "cnt_inv ?t"
    using cnt lq by (simp add: cnt_inv_def)
  have fresh': "\<forall>j<length ps. idx ?t \<le> j \<longrightarrow> processes ?t ! j = ps ! j"
    using fresh pl by (auto simp: nth_list_update)
  have rdy': "\<forall>j\<in>set (pq ?t). R (sint (currentTime ?t)) (processes ?t ! j)"
  proof
    fix j assume j: "j \<in> set (pq ?t)"
    then have "j \<noteq> p" "j \<in> set (pq s)" using dq sq by auto
    then show "R (sint (currentTime ?t)) (processes ?t ! j)"
      using rdy RT by (auto simp: nth_list_update)
  qed
  have dn': "\<forall>j<idx ?t. j \<notin> set (pq ?t) \<longrightarrow> D (sint (currentTime ?t)) (processes ?t ! j)"
  proof (intro allI impI)
    fix j assume j: "j < idx ?t" "j \<notin> set (pq ?t)"
    show "D (sint (currentTime ?t)) (processes ?t ! j)"
    proof (cases "j = p")
      case True
      then show ?thesis using r(2) pl len by simp
    next
      case False
      with j have "j \<notin> set (pq s)" "j < idx s" using sq by auto
      with dn have "D (sint (currentTime s)) (processes s ! j)" by simp
      then show ?thesis using False DT by (auto simp: nth_list_update)
    qed
  qed
  have lst': "\<exists>j<idx ?t. j \<notin> set (pq ?t) \<and> L (completed ?t) (processes ?t ! j)"
    using pl dq r(3) len by (intro exI[of _ p]) auto
  show ?thesis
    unfolding sinv_def
    using len st' c' dq sq sub fresh' rdy' dn' lst' by auto
qed

text \<open>The process \<open>p\<close> stays in the ready set after a slice.\<close>

lemma sinv_requeue:
  assumes i: "sinv R D L ps s" and p: "p \<in> set (pq s)" and q: "mset q = mset (pq s)"
    and r: "same_static r (processes s ! p)" "R (sint now) r"
    and RT: "\<And>x. R (sint (currentTime s)) x \<Longrightarrow> R (sint now) x"
    and DT: "\<And>x. D (sint (currentTime s)) x \<Longrightarrow> D (sint now) x"
  shows "sinv R D L ps (s\<lparr>processes := (processes s)[p := r], pq := q, currentTime := now\<rparr>)"
proof -
  let ?t = "s\<lparr>processes := (processes s)[p := r], pq := q, currentTime := now\<rparr>"
  have len: "length (processes s) = length ps"
    and st: "\<forall>j<length ps. same_static (processes s ! j) (ps ! j)"
    and cnt: "cnt_inv s" and d: "distinct (pq s)" and sub: "\<forall>j\<in>set (pq s). j < idx s"
    and fresh: "\<forall>j<length ps. idx s \<le> j \<longrightarrow> processes s ! j = ps ! j"
    and rdy: "\<forall>j\<in>set (pq s). R (sint (currentTime s)) (processes s ! j)"
    and dn: "\<forall>j<idx s. j \<notin> set (pq s) \<longrightarrow> D (sint (currentTime s)) (processes s ! j)"
    and lst: "completed s = 0 \<or>
      (\<exists>j<idx s. j \<notin> set (pq s) \<and> L (completed s) (processes s ! j))"
    using i unfolding sinv_def by blast+
  have pl: "p < length ps" "p < idx s" using p sub cnt len by (auto simp: cnt_inv_def)
  have dq: "distinct q"
    using mset_eq_imp_distinct_iff[OF q] d by blast
  have sq: "set q = set (pq s)"
    using mset_eq_setD[OF q] .
  have lq: "length q = length (pq s)"
    using mset_eq_length[OF q] .
  have st': "\<forall>j<length ps. same_static (processes ?t ! j) (ps ! j)"
    using st r(1) pl len by (auto simp: nth_list_update same_static_def)
  have c': "cnt_inv ?t"
    using cnt lq by (simp add: cnt_inv_def)
  have fresh': "\<forall>j<length ps. idx ?t \<le> j \<longrightarrow> processes ?t ! j = ps ! j"
    using fresh pl by (auto simp: nth_list_update)
  have rdy': "\<forall>j\<in>set (pq ?t). R (sint (currentTime ?t)) (processes ?t ! j)"
  proof
    fix j assume j: "j \<in> set (pq ?t)"
    show "R (sint (currentTime ?t)) (processes ?t ! j)"
    proof (cases "j = p")
      case True
      then show ?thesis using r(2) pl len by simp
    next
      case False
      then show ?thesis
        using j sq rdy RT by (auto simp: nth_list_update)
    qed
  qed
  have dn': "\<forall>j<idx ?t. j \<notin> set (pq ?t) \<longrightarrow> D (sint (currentTime ?t)) (processes ?t ! j)"
  proof (intro allI impI)
    fix j assume j: "j < idx ?t" "j \<notin> set (pq ?t)"
    then have "j \<noteq> p" "j \<notin> set (pq s)" "j < idx s" using sq p by auto
    with dn have "D (sint (currentTime s)) (processes s ! j)" by simp
    then show "D (sint (currentTime ?t)) (processes ?t ! j)"
      using \<open>j \<noteq> p\<close> DT by (auto simp: nth_list_update)
  qed
  have lst': "completed ?t = 0 \<or>
      (\<exists>j<idx ?t. j \<notin> set (pq ?t) \<and> L (completed ?t) (processes ?t ! j))"
  proof (cases "completed s = 0")
    case False
    with lst obtain j where j: "j < idx s" "j \<notin> set (pq s)" "L (completed s) (processes s ! j)"
      by blast
    then have "j \<noteq> p" using p by auto
    with j have "j < idx ?t \<and> j \<notin> set (pq ?t) \<and> L (completed ?t) (processes ?t ! j)"
      using sq by (simp add: nth_list_update)
    then show ?thesis by blast
  qed simp
  show ?thesis
    unfolding sinv_def
    using len st' c' dq sq sub fresh' rdy' dn' lst' by auto
qed

subsection \<open>Machine arithmetic\<close>

lemma sint_range: "- (2 ^ 31) \<le> sint (x :: int32)" "sint x < 2 ^ 31"
  using sint_ge[of x] sint_lt[of x] by simp_all

lemma sint_add_ok:
  "- (2 ^ 31) \<le> sint (x :: int32) + sint y \<Longrightarrow> sint x + sint y < 2 ^ 31 \<Longrightarrow>
   sint (x + y) = sint x + sint y"
  by (simp add: sint_word_ariths signed_take_bit_int_eq_self)

lemma sint_sub_ok:
  "- (2 ^ 31) \<le> sint (x :: int32) - sint y \<Longrightarrow> sint x - sint y < 2 ^ 31 \<Longrightarrow>
   sint (x - y) = sint x - sint y"
  by (simp add: sint_word_ariths signed_take_bit_int_eq_self)

text \<open>Two numbers that are not negative: their difference is in range.\<close>

lemma sint_sub_nonneg:
  "0 \<le> sint (y :: int32) \<Longrightarrow> 0 \<le> sint x \<Longrightarrow> sint (x - y) = sint x - sint y"
  using sint_range[of x] sint_range[of y] by (intro sint_sub_ok) linarith+

lemma sint_eq_0_iff: "sint (x :: int32) = 0 \<longleftrightarrow> x = 0"
  by (auto intro: signed_word_eqI)

lemma sint_inject: "sint (x :: int32) = sint y \<longleftrightarrow> x = y"
  by (auto intro: signed_word_eqI)

lemma sint_minus1: "sint (x :: int32) \<noteq> -1 \<longleftrightarrow> x \<noteq> -1"
  by (auto intro: signed_word_eqI)

lemma smin_cases:
  "sint (smin a b) = min (sint a) (sint b)"
  by (simp add: smin_def min_def)

lemma smax_cases:
  "sint (smax a b) = max (sint a) (sint b)"
  by (simp add: smax_def max_def)

subsection \<open>The updates of a process\<close>

lemma finalized_finalize: "finalized (finalize t p)"
  by (simp add: finalized_def)

lemma same_static_set_response: "same_static (set_response t p) p"
  by (simp add: same_static_def)

lemma same_static_trans: "same_static a b \<Longrightarrow> same_static b c \<Longrightarrow> same_static a c"
  by (simp add: same_static_def)

lemma fast_forward_Inr:
  assumes "fast_forward s1 = Inr s'"
  shows "idx s1 < length (processes s1)"
    and "s' = s1\<lparr>currentTime := arrivalTime (processes s1 ! idx s1)\<rparr>"
  using assms by (auto simp: fast_forward_def split: if_splits)

subsection \<open>The shape of a Round Robin step\<close>

text \<open>Where the admission loop stops depends on the arrival times, the clock and \<open>idx\<close> only.\<close>

lemma admit_idx_cong:
  assumes ok: "push_ok push" "push_ok push'"
    and eq: "map arrivalTime (processes s) = map arrivalTime (processes t)"
      "currentTime s = currentTime t" "idx s = idx t"
  shows "idx (admit push s) = idx (admit push' t)"
proof -
  note P = admit_props[OF ok(1), of s] and P' = admit_props[OF ok(2), of t]
  have len: "length (processes s) = length (processes t)"
    using eq(1) by (metis length_map)
  have arr: "arrivalTime (processes s ! j) = arrivalTime (processes t ! j)" if "j < length (processes t)" for j
    using eq(1) that len by (metis nth_map)
  let ?k = "idx (admit push s)" and ?k' = "idx (admit push' t)"
  have "\<not> ?k < ?k'"
  proof
    assume "?k < ?k'"
    with P P' eq have "?k < length (processes t)
        \<and> sint (arrivalTime (processes t ! ?k)) \<le> sint (currentTime t)"
      by auto
    with arr[of ?k] len eq have "arrived (admit push s)" by (simp add: arrived_def)
    with P show False by simp
  qed
  moreover have "\<not> ?k' < ?k"
  proof
    assume "?k' < ?k"
    with P P' eq have "?k' < length (processes s)
        \<and> sint (arrivalTime (processes s ! ?k')) \<le> sint (currentTime s)"
      by auto
    with arr[of ?k'] len eq have "arrived (admit push' t)" by (simp add: arrived_def)
    with P' show False by simp
  qed
  ultimately show ?thesis by simp
qed

lemma sum_list_map_update:
  "p < length xs \<Longrightarrow> sum_list (map f (xs[p := y])) + f (xs ! p) = sum_list (map f xs) + (f y :: nat)"
  by (induction xs arbitrary: p) (auto split: nat.splits)

text \<open>
  A slice that leaves the process unfinished: the state after the body is, up to the order
  of the queue, the state of the admission loop run with the process still in the queue.
\<close>

lemma rr_body_requeue:
  assumes "s1 = admit queue_push s" "pq s1 \<noteq> []" "p = hd (pq s1)"
    "r = set_response (currentTime s1) (processes s1 ! p)"
    "e = smin tq (remainingTime r)"
    "r1 = r\<lparr>remainingTime := remainingTime r - e\<rparr>"
    "now = currentTime s1 + e"
    and pos: "sint (remainingTime r1) > 0"
    and t: "t = admit queue_push
                  (s1\<lparr>processes := (processes s1)[p := r1], currentTime := now\<rparr>)"
    and b: "rr_body tq s = Inr s'"
  shows "mset (pq s') = mset (pq t)" "processes s' = processes t"
    "currentTime s' = currentTime t" "completed s' = completed t" "idx s' = idx t"
    "processes t = (processes s1)[p := r1]" "idx s1 \<le> idx t" "completed t = completed s"
proof -
  note ok = push_ok_queue_push
  define mid where "mid = s1\<lparr>processes := (processes s1)[p := r1], pq := tl (pq s1), currentTime := now\<rparr>"
  define t0 where "t0 = s1\<lparr>processes := (processes s1)[p := r1], currentTime := now\<rparr>"
  define s2 where "s2 = admit queue_push mid"
  have s': "s' = s2\<lparr>pq := pq s2 @ [p]\<rparr>"
    using rr_body_dispatch[OF assms(1-7) s2_def[unfolded mid_def]] b pos
    by (simp add: queue_push_def)
  have tt: "t = admit queue_push t0" by (simp add: t t0_def)
  have hd_tl: "pq s1 = p # tl (pq s1)" using assms(2,3) by simp
  have q2: "pq s2 = tl (pq s1) @ [idx s1 ..< idx s2]"
    using admit_queue_push[of mid] by (simp add: s2_def) (simp add: mid_def)
  have ik: "idx t = idx s2"
    unfolding tt s2_def by (rule admit_idx_cong[OF ok ok]) (simp_all add: t0_def mid_def)
  have qt: "pq t = pq s1 @ [idx s1 ..< idx s2]"
    using admit_queue_push[of t0] ik by (simp add: tt) (simp add: t0_def)
  show "mset (pq s') = mset (pq t)"
    unfolding qt s' q2 by (subst (2) hd_tl) simp
  show "processes s' = processes t" "currentTime s' = currentTime t"
    "completed s' = completed t" "processes t = (processes s1)[p := r1]"
    "completed t = completed s"
    by (simp_all add: s' s2_def tt mid_def t0_def assms(1))
  show "idx s' = idx t" by (simp add: s' ik)
  show "idx s1 \<le> idx t"
    using admit_props[OF ok, of t0] by (simp add: tt) (simp add: t0_def)
qed

text \<open>A slice that ends the process: the admission loop runs without it.\<close>

lemma rr_body_complete:
  assumes "s1 = admit queue_push s" "pq s1 \<noteq> []" "p = hd (pq s1)"
    "r = set_response (currentTime s1) (processes s1 ! p)"
    "e = smin tq (remainingTime r)"
    "r1 = r\<lparr>remainingTime := remainingTime r - e\<rparr>"
    "now = currentTime s1 + e"
    and npos: "\<not> sint (remainingTime r1) > 0"
    and u: "u = admit queue_push
                  (s1\<lparr>processes := (processes s1)[p := finalize now r1], pq := tl (pq s1),
                      currentTime := now, completed := completed s1 + 1\<rparr>)"
    and b: "rr_body tq s = Inr s'"
  shows "mset (pq s') = mset (pq u)" "processes s' = processes u"
    "currentTime s' = currentTime u" "completed s' = completed u" "idx s' = idx u"
    "processes u = (processes s1)[p := finalize now r1]" "idx s1 \<le> idx u"
    "completed u = Suc (completed s)"
proof -
  note ok = push_ok_queue_push
  define mid where "mid = s1\<lparr>processes := (processes s1)[p := r1], pq := tl (pq s1), currentTime := now\<rparr>"
  define u0 where "u0 = s1\<lparr>processes := (processes s1)[p := finalize now r1], pq := tl (pq s1),
                             currentTime := now, completed := completed s1 + 1\<rparr>"
  define s2 where "s2 = admit queue_push mid"
  have s': "s' = s2\<lparr>processes := (processes s2)[p := finalize now r1],
                          completed := completed s2 + 1\<rparr>"
    using rr_body_dispatch[OF assms(1-7) s2_def[unfolded mid_def]] b npos
    by simp
  have uu: "u = admit queue_push u0" by (simp add: u u0_def)
  have q2: "pq s2 = tl (pq s1) @ [idx s1 ..< idx s2]"
    using admit_queue_push[of mid] by (simp add: s2_def) (simp add: mid_def)
  have "map arrivalTime (processes u0) = map arrivalTime (processes mid)"
    unfolding u0_def mid_def by (simp add: map_update assms(6))
  then have ik: "idx u = idx s2"
    unfolding uu s2_def by (rule admit_idx_cong[OF ok ok]) (simp_all add: u0_def mid_def)
  have qu: "pq u = tl (pq s1) @ [idx s1 ..< idx s2]"
    using admit_queue_push[of u0] ik by (simp add: uu) (simp add: u0_def)
  show "mset (pq s') = mset (pq u)"
    unfolding qu s' by (simp add: q2)
  show "processes s' = processes u" "currentTime s' = currentTime u"
    "completed s' = completed u" "processes u = (processes s1)[p := finalize now r1]"
    "completed u = Suc (completed s)"
    by (simp_all add: s' s2_def uu mid_def u0_def assms(1))
  show "idx s' = idx u" by (simp add: s' ik)
  show "idx s1 \<le> idx u"
    using admit_props[OF ok, of u0] by (simp add: uu) (simp add: u0_def)
qed

subsection \<open>The loop bodies complete every process, whatever the clock does\<close>

lemma fresh_any_ready: "any_ready t p"
  by (simp add: any_ready_def)

lemma fresh_pos_rem: "valid_process p \<Longrightarrow> pos_rem t p"
  by (simp add: pos_rem_def valid_process_def)

lemma w_np_step:
  assumes v: "valid ps" and i: "sinv any_ready fin_np any_last ps s"
    and b: "np_body cmp s = Inr s'"
  shows "sinv any_ready fin_np any_last ps s'"
proof -
  let ?push = "\<lambda>ps. pq_push (cmp ps)"
  define s1 where "s1 = admit ?push s"
  note ok = push_ok_pq_push[of cmp]
  have i1: "sinv any_ready fin_np any_last ps s1"
    unfolding s1_def by (rule sinv_admit[OF ok v i]) (rule fresh_any_ready)
  show ?thesis
  proof (cases "pq s1 = []")
    case True
    then have "fast_forward s1 = Inr s'"
      using b by (simp add: np_body_empty s1_def)
    then have s': "s' = s1\<lparr>currentTime := arrivalTime (processes s1 ! idx s1)\<rparr>"
      by (rule fast_forward_Inr)
    show ?thesis
      unfolding s' by (rule sinv_fast_forward[OF i1 True]) (simp add: fin_np_def)
  next
    case False
    define p where "p = hd (pq s1)"
    define q where "q = pq_pop (cmp (processes s1)) (pq s1)"
    define r where "r = set_response (currentTime s1) (processes s1 ! p)"
    define r' where "r' = finalize (currentTime s1 + burstTime r) r"
    have s': "s' = s1\<lparr>processes := (processes s1)[p := r'], pq := q,
              currentTime := completionTime r', completed := completed s1 + 1\<rparr>"
      using np_body_dispatch[OF s1_def False p_def q_def r_def r'_def] b by simp
    have pin: "p \<in> set (pq s1)" using False by (simp add: p_def)
    have mq: "add_mset p (mset q) = mset (pq s1)"
      unfolding p_def q_def by (rule mset_pq_pop[OF False])
    have st: "same_static r' (processes s1 ! p)"
      by (simp add: same_static_def r'_def r_def)
    have dn: "fin_np (sint (completionTime r')) r'"
      by (simp add: fin_np_def r'_def finalized_finalize)
    show ?thesis
      unfolding s'
      by (rule sinv_complete[OF i1 pin mq st dn])
        (simp_all add: any_last_def any_ready_def fin_np_def)
  qed
qed

lemma w_pr_step:
  assumes v: "valid ps" and i: "sinv any_ready fin_pr any_last ps s"
    and b: "pr_body cmp s = Inr s'"
  shows "sinv any_ready fin_pr any_last ps s'"
proof -
  let ?push = "\<lambda>ps. pq_push (cmp ps)"
  define s1 where "s1 = admit ?push s"
  note ok = push_ok_pq_push[of cmp]
  have i1: "sinv any_ready fin_pr any_last ps s1"
    unfolding s1_def by (rule sinv_admit[OF ok v i]) (rule fresh_any_ready)
  show ?thesis
  proof (cases "pq s1 = []")
    case True
    then have "fast_forward s1 = Inr s'"
      using b by (simp add: pr_body_empty s1_def)
    then have s': "s' = s1\<lparr>currentTime := arrivalTime (processes s1 ! idx s1)\<rparr>"
      by (rule fast_forward_Inr)
    show ?thesis
      unfolding s' by (rule sinv_fast_forward[OF i1 True]) (simp add: fin_pr_def)
  next
    case False
    define p where "p = hd (pq s1)"
    define q where "q = pq_pop (cmp (processes s1)) (pq s1)"
    define r where "r = set_response (currentTime s1) (processes s1 ! p)"
    define e where "e = (if idx s1 < length (processes s1)
               then smin (remainingTime r) (arrivalTime (processes s1 ! idx s1) - currentTime s1)
               else remainingTime r)"
    define r1 where "r1 = r\<lparr>remainingTime := remainingTime r - e\<rparr>"
    define now where "now = currentTime s1 + e"
    note B = pr_body_dispatch[OF s1_def False p_def q_def r_def e_def r1_def now_def]
    have pin: "p \<in> set (pq s1)" using False by (simp add: p_def)
    have mq: "add_mset p (mset q) = mset (pq s1)"
      unfolding p_def q_def by (rule mset_pq_pop[OF False])
    show ?thesis
    proof (cases "remainingTime r1 = 0")
      case True
      have s': "s' = s1\<lparr>processes := (processes s1)[p := finalize now r1], pq := q,
                      currentTime := now, completed := completed s1 + 1\<rparr>"
        using B b True by simp
      have st: "same_static (finalize now r1) (processes s1 ! p)"
        by (simp add: same_static_def r1_def r_def)
      have dn: "fin_pr (sint now) (finalize now r1)"
        using True by (simp add: fin_pr_def finalized_finalize)
      show ?thesis
        unfolding s'
        by (rule sinv_complete[OF i1 pin mq st dn])
          (simp_all add: any_last_def any_ready_def fin_pr_def)
    next
      case nz: False
      have s': "s' = s1\<lparr>processes := (processes s1)[p := r1],
                      pq := pq_push (cmp ((processes s1)[p := r1])) q p, currentTime := now\<rparr>"
        using B b nz by simp
      have st: "same_static r1 (processes s1 ! p)"
        by (simp add: same_static_def r1_def r_def)
      have m: "mset (pq_push (cmp ((processes s1)[p := r1])) q p) = mset (pq s1)"
        using mq by (simp add: mset_pq_push)
      show ?thesis
        unfolding s'
        by (rule sinv_requeue[OF i1 pin m st])
          (simp_all add: any_ready_def fin_pr_def)
    qed
  qed
qed

text \<open>
  Round Robin: a positive quantum takes at least one unit and at most the remaining time
  off the process at the front, so the remaining times never wrap around.
\<close>

lemma w_rr_step:
  assumes v: "valid ps" and tq: "0 < sint tq" and i: "sinv pos_rem fin_pr any_last ps s"
    and c: "completed s < length (processes s)" and b: "rr_body tq s = Inr s'"
  shows "sinv pos_rem fin_pr any_last ps s' \<and> m_rr s' < m_rr s"
proof -
  define s1 where "s1 = admit queue_push s"
  note ok = push_ok_queue_push
  note fr = fresh_pos_rem
  have cs: "cnt_inv s" using i by (simp add: sinv_def)
  have i1: "sinv pos_rem fin_pr any_last ps s1"
    unfolding s1_def by (rule sinv_admit[OF ok v i]) (rule fr)
  have after: "2 * (length (processes s) - idx s1) + 2 * (length (processes s) - completed s) + 1 \<le> m1 s"
    using m1_after_admit[OF ok] cs by (simp add: cnt_inv_def s1_def)
  show ?thesis
  proof (cases "pq s1 = []")
    case True
    then have ff: "fast_forward s1 = Inr s'"
      using b by (simp add: rr_body_empty s1_def)
    from fast_forward_step[OF ok cs c] True ff
    have "processes s' = processes s" "m1 s' < m1 s"
      unfolding s1_def by auto
    then have m: "m_rr s' < m_rr s" by (simp add: m_rr_def)
    have s': "s' = s1\<lparr>currentTime := arrivalTime (processes s1 ! idx s1)\<rparr>"
      using ff by (rule fast_forward_Inr)
    have "sinv pos_rem fin_pr any_last ps s'"
      unfolding s' by (rule sinv_fast_forward[OF i1 True]) (simp add: fin_pr_def)
    with m show ?thesis by simp
  next
    case False
    define p where "p = hd (pq s1)"
    define r where "r = set_response (currentTime s1) (processes s1 ! p)"
    define e where "e = smin tq (remainingTime r)"
    define r1 where "r1 = r\<lparr>remainingTime := remainingTime r - e\<rparr>"
    define now where "now = currentTime s1 + e"
    note D = s1_def False p_def r_def e_def r1_def now_def
    have pin: "p \<in> set (pq s1)" using False by (simp add: p_def)
    have hd_tl: "pq s1 = p # tl (pq s1)" using False by (simp add: p_def)
    have pl: "p < length (processes s1)" by (rule sinv_pq_facts(2)[OF i1 pin])
    have rem: "remainingTime r = remainingTime (processes s1 ! p)"
      by (simp add: r_def)
    have rp: "0 < sint (remainingTime r)"
      using sinv_pq_facts(3)[OF i1 pin] by (simp add: pos_rem_def rem)
    have e: "1 \<le> sint e" "sint e \<le> sint (remainingTime r)"
      using rp tq by (simp_all add: e_def smin_cases)
    have sub: "sint (remainingTime r - e) = sint (remainingTime r) - sint e"
      using e rp by (intro sint_sub_nonneg) simp_all
    have ps1: "processes s1 = processes s" by (simp add: s1_def)
    have sum: "sum_list (map (\<lambda>p. nat (sint (remainingTime p))) ((processes s1)[p := x]))
                 < sum_list (map (\<lambda>p. nat (sint (remainingTime p))) (processes s))"
      if "remainingTime x = remainingTime r - e" for x
    proof -
      have "sum_list (map (\<lambda>p. nat (sint (remainingTime p))) ((processes s1)[p := x]))
               + nat (sint (remainingTime (processes s1 ! p)))
            = sum_list (map (\<lambda>p. nat (sint (remainingTime p))) (processes s1))
               + nat (sint (remainingTime x))"
        by (rule sum_list_map_update[OF pl])
      moreover have "nat (sint (remainingTime x)) < nat (sint (remainingTime (processes s1 ! p)))"
        using that e rem sub rp by simp
      ultimately show ?thesis unfolding ps1 by linarith
    qed
    show ?thesis
    proof (cases "sint (remainingTime r1) > 0")
      case True
      define t0 where "t0 = s1\<lparr>processes := (processes s1)[p := r1], pq := pq s1, currentTime := now\<rparr>"
      define t where "t = admit queue_push t0"
      have tt: "t = admit queue_push (s1\<lparr>processes := (processes s1)[p := r1], currentTime := now\<rparr>)"
        by (simp add: t_def t0_def)
      note S = rr_body_requeue[OF D True tt b]
      have st: "same_static r1 (processes s1 ! p)"
        by (simp add: same_static_def r1_def r_def)
      have rd: "pos_rem (sint now) r1"
        using True by (simp add: pos_rem_def)
      have "sinv pos_rem fin_pr any_last ps t0"
        unfolding t0_def
        by (rule sinv_requeue[OF i1 pin refl st rd]) (simp_all add: pos_rem_def fin_pr_def)
      then have it: "sinv pos_rem fin_pr any_last ps t"
        unfolding t_def by (rule sinv_admit[OF ok v _ fr])
      have inv': "sinv pos_rem fin_pr any_last ps s'"
        by (rule sinv_mset_cong[OF it S(1-5)])
      have "m1 s' \<le> 2 * (length (processes s) - idx t) + 2 * (length (processes s) - completed s) + 1"
        using m1_le[of s'] by (simp add: S ps1)
      with after S(7) have "m1 s' \<le> m1 s" by simp
      moreover have "sum_list (map (\<lambda>p. nat (sint (remainingTime p))) (processes s'))
                 < sum_list (map (\<lambda>p. nat (sint (remainingTime p))) (processes s))"
        unfolding S(2) S(6) using sum[of r1] by (simp add: r1_def)
      ultimately have "m_rr s' < m_rr s" by (simp add: m_rr_def)
      with inv' show ?thesis by simp
    next
      case nz: False
      define u0 where "u0 = s1\<lparr>processes := (processes s1)[p := finalize now r1], pq := tl (pq s1),
                             currentTime := now, completed := completed s1 + 1\<rparr>"
      define u where "u = admit queue_push u0"
      note S = rr_body_complete[OF D nz u_def[unfolded u0_def] b]
      have st: "same_static (finalize now r1) (processes s1 ! p)"
        by (simp add: same_static_def r1_def r_def)
      have "sint (remainingTime r1) = 0"
        using nz e sub by (simp add: r1_def)
      then have z: "remainingTime r1 = 0" by (simp add: sint_eq_0_iff)
      have dn: "fin_pr (sint now) (finalize now r1)"
        using z by (simp add: fin_pr_def finalized_finalize)
      have mq: "add_mset p (mset (tl (pq s1))) = mset (pq s1)"
        by (subst (2) hd_tl) simp
      have "sinv pos_rem fin_pr any_last ps u0"
        unfolding u0_def
        by (rule sinv_complete[OF i1 pin mq st dn])
          (simp_all add: any_last_def pos_rem_def fin_pr_def)
      then have iu: "sinv pos_rem fin_pr any_last ps u"
        unfolding u_def by (rule sinv_admit[OF ok v _ fr])
      have inv': "sinv pos_rem fin_pr any_last ps s'"
        by (rule sinv_mset_cong[OF iu S(1-5)])
      have "m1 s' \<le> 2 * (length (processes s) - idx u) + 2 * (length (processes s) - Suc (completed s)) + 1"
        using m1_le[of s'] by (simp add: S ps1)
      with after S(7) have "m1 s' \<le> m1 s" by simp
      moreover have "sum_list (map (\<lambda>p. nat (sint (remainingTime p))) (processes s'))
                 < sum_list (map (\<lambda>p. nat (sint (remainingTime p))) (processes s))"
        unfolding S(2) S(6) using sum[of "finalize now r1"] by (simp add: r1_def)
      ultimately have "m_rr s' < m_rr s" by (simp add: m_rr_def)
      with inv' show ?thesis by simp
    qed
  qed
qed

text \<open>Round Robin with any quantum: what is completed has been finalised.\<close>

lemma w_rr_step_fin:
  assumes v: "valid ps" and i: "sinv any_ready fin_np any_last ps s"
    and b: "rr_body tq s = Inr s'"
  shows "sinv any_ready fin_np any_last ps s'"
proof -
  define s1 where "s1 = admit queue_push s"
  note ok = push_ok_queue_push
  have fr: "\<And>p t. valid_process p \<Longrightarrow> sint (arrivalTime p) \<le> t \<Longrightarrow> any_ready t p"
    by (rule fresh_any_ready)
  have i1: "sinv any_ready fin_np any_last ps s1"
    unfolding s1_def by (rule sinv_admit[OF ok v i fr])
  show ?thesis
  proof (cases "pq s1 = []")
    case True
    then have "fast_forward s1 = Inr s'"
      using b by (simp add: rr_body_empty s1_def)
    then have s': "s' = s1\<lparr>currentTime := arrivalTime (processes s1 ! idx s1)\<rparr>"
      by (rule fast_forward_Inr)
    show ?thesis
      unfolding s' by (rule sinv_fast_forward[OF i1 True]) (simp add: fin_np_def)
  next
    case False
    define p where "p = hd (pq s1)"
    define r where "r = set_response (currentTime s1) (processes s1 ! p)"
    define e where "e = smin tq (remainingTime r)"
    define r1 where "r1 = r\<lparr>remainingTime := remainingTime r - e\<rparr>"
    define now where "now = currentTime s1 + e"
    note D = s1_def False p_def r_def e_def r1_def now_def
    have pin: "p \<in> set (pq s1)" using False by (simp add: p_def)
    have hd_tl: "pq s1 = p # tl (pq s1)" using False by (simp add: p_def)
    show ?thesis
    proof (cases "sint (remainingTime r1) > 0")
      case True
      define t0 where "t0 = s1\<lparr>processes := (processes s1)[p := r1], pq := pq s1, currentTime := now\<rparr>"
      define t where "t = admit queue_push t0"
      have tt: "t = admit queue_push (s1\<lparr>processes := (processes s1)[p := r1], currentTime := now\<rparr>)"
        by (simp add: t_def t0_def)
      note S = rr_body_requeue[OF D True tt b]
      have st: "same_static r1 (processes s1 ! p)"
        by (simp add: same_static_def r1_def r_def)
      have "sinv any_ready fin_np any_last ps t0"
        unfolding t0_def
        by (rule sinv_requeue[OF i1 pin refl st]) (simp_all add: any_ready_def fin_np_def)
      then have it: "sinv any_ready fin_np any_last ps t"
        unfolding t_def by (rule sinv_admit[OF ok v _ fr])
      show ?thesis
        by (rule sinv_mset_cong[OF it S(1-5)])
    next
      case nz: False
      define u0 where "u0 = s1\<lparr>processes := (processes s1)[p := finalize now r1], pq := tl (pq s1),
                             currentTime := now, completed := completed s1 + 1\<rparr>"
      define u where "u = admit queue_push u0"
      note S = rr_body_complete[OF D nz u_def[unfolded u0_def] b]
      have st: "same_static (finalize now r1) (processes s1 ! p)"
        by (simp add: same_static_def r1_def r_def)
      have dn: "fin_np (sint now) (finalize now r1)"
        by (simp add: fin_np_def finalized_finalize)
      have mq: "add_mset p (mset (tl (pq s1))) = mset (pq s1)"
        by (subst (2) hd_tl) simp
      have "sinv any_ready fin_np any_last ps u0"
        unfolding u0_def
        by (rule sinv_complete[OF i1 pin mq st dn])
          (simp_all add: any_last_def any_ready_def fin_np_def)
      then have iu: "sinv any_ready fin_np any_last ps u"
        unfolding u_def by (rule sinv_admit[OF ok v _ fr])
      show ?thesis
        by (rule sinv_mset_cong[OF iu S(1-5)])
    qed
  qed
qed

lemma body_winv_step:
  assumes b: "loop_body pol = Some b" and v: "valid ps" and vp: "valid_policy pol"
    and i: "winv pol ps s" and c: "completed s < length (processes s)"
  shows "\<exists>s'. b s = Inr s' \<and> winv pol ps s' \<and> loop_measure pol s' < loop_measure pol s"
proof -
  have cs: "cnt_inv s" using i by (simp add: winv_def sinv_def)
  show ?thesis
  proof (cases pol)
    case FCFS
    with b show ?thesis by simp
  next
    case SJF
    with b i np_body_step[OF cs c, of sjf_cmp] w_np_step[OF v, of s sjf_cmp]
    show ?thesis by (auto simp: winv_def)
  next
    case SRTF
    with b i pr_body_step[OF cs c, of srtf_cmp] w_pr_step[OF v, of s srtf_cmp]
    show ?thesis by (auto simp: winv_def)
  next
    case (RoundRobin q)
    with vp have q: "0 < sint q" by simp
    from rr_body_step[OF cs c, of q] obtain s' where s': "rr_body q s = Inr s'" by blast
    from i have "sinv pos_rem fin_pr any_last ps s" by (simp add: winv_def RoundRobin)
    from w_rr_step[OF v q this c s'] s' b RoundRobin show ?thesis by (auto simp: winv_def)
  next
    case Priority
    with b i np_body_step[OF cs c, of priority_cmp] w_np_step[OF v, of s priority_cmp]
    show ?thesis by (auto simp: winv_def)
  next
    case PreemptivePriority
    with b i pr_body_step[OF cs c, of preemptive_priority_cmp]
      w_pr_step[OF v, of s preemptive_priority_cmp]
    show ?thesis by (auto simp: winv_def)
  qed
qed

subsection \<open>The runs on a valid input\<close>

lemma valid_sort_by_arrival: "valid ps \<Longrightarrow> valid (sort_by_arrival ps)"
  by (simp add: valid_def list_all_iff sort_by_arrival_def)

lemma start_init: "start pol ps = init (processes (start pol ps))"
  by (cases pol) (simp_all add: init_def)

lemma valid_start: "valid ps \<Longrightarrow> valid (processes (start pol ps))"
  by (cases pol) (simp_all add: init_def valid_sort_by_arrival)

lemma mset_start: "mset (processes (start pol ps)) = mset ps"
  by (cases pol) (simp_all add: init_def sort_by_arrival_def)

lemma winv_start: "winv pol (processes (start pol ps)) (start pol ps)"
  using sinv_init[of _ _ _ "processes (start pol ps)"] start_init[of pol ps]
  by (simp add: winv_def)

lemma sum_burst_sort:
  "sum_list (map (\<lambda>p. nat (sint (burstTime p))) (sort_by_arrival ps))
   = sum_list (map (\<lambda>p. nat (sint (burstTime p))) ps)"
proof -
  have "mset (sort_by_arrival ps) = mset ps" by (simp add: sort_by_arrival_def)
  then have "mset (map (\<lambda>p. nat (sint (burstTime p))) (sort_by_arrival ps))
     = mset (map (\<lambda>p. nat (sint (burstTime p))) ps)"
    by simp
  then show ?thesis by (metis sum_mset_sum_list)
qed

lemma valid_remaining_sum:
  "valid ps \<Longrightarrow> sum_list (map (\<lambda>p. nat (sint (remainingTime p))) ps)
     = sum_list (map (\<lambda>p. nat (sint (burstTime p))) ps)"
  by (induction ps) (simp_all add: valid_def valid_process_def)

lemma loop_measure_start:
  assumes "valid ps"
  shows "loop_measure pol (start pol ps) \<le> step_bound ps"
proof (cases "\<exists>q. pol = RoundRobin q")
  case True
  then obtain q where q: "pol = RoundRobin q" by blast
  have "m1 (init ps) \<le> 4 * length ps + 1"
    using m1_le[of "init ps"] by (simp add: init_def)
  then show ?thesis
    using valid_remaining_sum[OF assms] by (simp add: q m_rr_def step_bound_def) (simp add: init_def)
next
  case False
  then have "loop_measure pol = m1" by (cases pol) simp_all
  then show ?thesis using m1_start[of pol ps] by (simp add: step_bound_def)
qed

text \<open>The state in which a loop ends: nothing is ready, nothing is left to admit.\<close>

lemma sinv_final:
  assumes "sinv R D L ps s" "\<not> completed s < length (processes s)"
  shows "length (processes s) = length ps"
    and "completed s = length ps" and "pq s = []" and "idx s = length ps"
    and "\<And>j. j < length ps \<Longrightarrow> same_static (processes s ! j) (ps ! j)"
    and "\<And>j. j < length ps \<Longrightarrow> D (sint (currentTime s)) (processes s ! j)"
    and "ps \<noteq> [] \<Longrightarrow> \<exists>j<length ps. L (length ps) (processes s ! j)"
proof -
  have len: "length (processes s) = length ps"
    and cnt: "cnt_inv s"
    and dn: "\<forall>j<idx s. j \<notin> set (pq s) \<longrightarrow> D (sint (currentTime s)) (processes s ! j)"
    and lst: "completed s = 0 \<or>
      (\<exists>j<idx s. j \<notin> set (pq s) \<and> L (completed s) (processes s ! j))"
    using assms(1) unfolding sinv_def by blast+
  have "idx s \<le> length ps" "completed s + length (pq s) = idx s" "length ps \<le> completed s"
    using cnt assms(2) len by (simp_all add: cnt_inv_def)
  then have "length (pq s) = 0" "idx s = length ps" "completed s = length ps"
    by linarith+
  then show e: "idx s = length ps" "pq s = []" "completed s = length ps"
    by simp_all
  show "length (processes s) = length ps" by (rule len)
  show "same_static (processes s ! j) (ps ! j)" if "j < length ps" for j
    using assms(1) that unfolding sinv_def by blast
  show "D (sint (currentTime s)) (processes s ! j)" if "j < length ps" for j
    using dn e that by simp
  show "\<exists>j<length ps. L (length ps) (processes s ! j)" if "ps \<noteq> []"
    using lst e that by auto
qed

text \<open>FCFS\<close>

lemma fcfs_loop_Cons:
  "fcfs_loop t (p # ps) = snd (fcfs_step t p) # fcfs_loop (fst (fcfs_step t p)) ps"
  by (simp add: split_def Let_def)

declare fcfs_loop.simps(2) [simp del]

lemma fcfs_step_finalized:
  "finalized (snd (fcfs_step t p))" "same_static (snd (fcfs_step t p)) p"
  by (simp_all add: fcfs_step_def Let_def finalized_finalize same_static_def)

lemma fcfs_loop_finalized:
  "j < length ps \<Longrightarrow>
   same_static (fcfs_loop t ps ! j) (ps ! j) \<and> finalized (fcfs_loop t ps ! j)"
proof (induction ps arbitrary: t j)
  case Nil
  then show ?case by simp
next
  case (Cons p ps)
  show ?case
  proof (cases j)
    case 0
    then show ?thesis
      using fcfs_step_finalized[of t p] by (simp add: fcfs_loop_Cons)
  next
    case (Suc k)
    with Cons.prems have "k < length ps" by simp
    from Cons.IH[OF this] Suc show ?thesis
      by (simp add: fcfs_loop_Cons)
  qed
qed

text \<open>The while loops end within \<open>step_bound\<close> runs of the body.\<close>

lemma loop_ends:
  assumes b: "loop_body pol = Some b" and v: "valid ps" and vp: "valid_policy pol"
    and f: "step_bound ps \<le> fuel"
  shows "\<exists>s'. loop b fuel (start pol ps) = Some (Inr s')
           \<and> winv pol (processes (start pol ps)) s' \<and> \<not> completed s' < length (processes s')"
proof -
  let ?X = "processes (start pol ps)"
  have vX: "valid ?X" by (rule valid_start[OF v])
  have m: "loop_measure pol (start pol ps) \<le> fuel"
    using loop_measure_start[OF v, of pol] f by simp
  from loop_total[where I = "winv pol ?X" and m = "loop_measure pol",
      OF body_winv_step[OF b vX vp] winv_start m]
  show ?thesis .
qed

lemma simulate_terminates:
  assumes v: "valid ps" and vp: "valid_policy pol" and f: "step_bound ps \<le> fuel"
  shows "\<exists>res. simulate pol fuel ps = Some (Inr res)"
proof (cases "loop_body pol")
  case None
  then show ?thesis by (simp add: simulate_FCFS)
next
  case (Some b)
  from loop_ends[OF Some v vp f]
  obtain s' where "loop b fuel (start pol ps) = Some (Inr s')" by blast
  then show ?thesis by (simp add: simulate_loop[OF Some] finish_def)
qed

text \<open>Every policy: a run that ends on a valid input ends with every process finalised.\<close>

lemma simulate_result:
  assumes v: "valid ps" and vp: "valid_policy pol" and r: "simulate pol fuel ps = Some (Inr res)"
  shows "length res = length ps"
    and "\<And>j. j < length ps \<Longrightarrow> same_static (res ! j) (processes (start pol ps) ! j)"
    and "\<And>j. j < length ps \<Longrightarrow> finalized (res ! j)"
    and "\<And>j. j < length ps \<Longrightarrow> preemptive pol \<Longrightarrow> remainingTime (res ! j) = 0"
proof -
  let ?X = "processes (start pol ps)"
  have lX: "length ?X = length ps" by simp
  have vX: "valid ?X" by (rule valid_start[OF v])
  have "length res = length ps
    \<and> (\<forall>j<length ps. same_static (res ! j) (?X ! j) \<and> finalized (res ! j)
          \<and> (preemptive pol \<longrightarrow> remainingTime (res ! j) = 0))"
  proof (cases "loop_body pol")
    case None
    then have pol: "pol = FCFS" by (cases pol) simp_all
    have res: "res = fcfs_loop 0 ?X"
      using r by (simp add: pol init_def)
    show ?thesis
      using fcfs_loop_finalized[of _ ?X 0] lX
      unfolding res by (auto simp del: length_start simp: pol)
  next
    case (Some b)
    from r obtain x where x: "loop b fuel (start pol ps) = Some x" "map_sum (\<lambda>e. e) processes x = Inr res"
      by (auto simp: simulate_loop[OF Some] finish_def)
    from loop_partial[where I = "winv pol ?X", OF _ winv_start x(1)] body_winv_step[OF Some vX vp]
    obtain s' where s': "x = Inr s'" "winv pol ?X s'" "\<not> completed s' < length (processes s')"
      by blast
    with x(2) have res: "res = processes s'" by simp
    note F = sinv_final[OF s'(2)[unfolded winv_def] s'(3)]
    have "finalized (res ! j) \<and> (preemptive pol \<longrightarrow> remainingTime (res ! j) = 0)"
      if "j < length ps" for j
      using F(6)[of j] that lX unfolding res
      by (cases pol) (simp_all add: fin_np_def fin_pr_def del: length_start)
    then show ?thesis
      unfolding res using F(1,5) lX by (auto simp del: length_start)
  qed
  then show "length res = length ps"
    and "\<And>j. j < length ps \<Longrightarrow> same_static (res ! j) (processes (start pol ps) ! j)"
    and "\<And>j. j < length ps \<Longrightarrow> finalized (res ! j)"
    and "\<And>j. j < length ps \<Longrightarrow> preemptive pol \<Longrightarrow> remainingTime (res ! j) = 0"
    by blast+
qed

text \<open>The same of Round Robin with any quantum, and so of every policy.\<close>

lemma simulate_finalized:
  assumes v: "valid ps" and r: "simulate pol fuel ps = Some (Inr res)"
  shows "length res = length ps" and "\<And>j. j < length ps \<Longrightarrow> finalized (res ! j)"
proof -
  have "length res = length ps \<and> (\<forall>j<length ps. finalized (res ! j))"
  proof (cases "valid_policy pol")
    case True
    from simulate_result(1,3)[OF v True r] show ?thesis by blast
  next
    case False
    then obtain q where pol: "pol = RoundRobin q" by (cases pol) simp_all
    let ?I = "sinv any_ready fin_np any_last ps"
    have step: "\<exists>s'. rr_body q s = Inr s' \<and> ?I s'"
      if "?I s" "completed s < length (processes s)" for s
    proof -
      have "cnt_inv s" using that(1) by (simp add: sinv_def)
      from rr_body_step[OF this that(2), of q] obtain s' where s': "rr_body q s = Inr s'"
        by blast
      from w_rr_step_fin[OF v that(1) s'] s' show ?thesis by blast
    qed
    from r obtain x where x: "loop (rr_body q) fuel (init ps) = Some x"
      "map_sum (\<lambda>e. e) processes x = Inr res"
      by (auto simp: pol finish_def)
    from loop_partial[where I = ?I, OF step sinv_init x(1)]
    obtain s' where s': "x = Inr s'" "?I s'" "\<not> completed s' < length (processes s')"
      by blast
    with x(2) have res: "res = processes s'" by simp
    note F = sinv_final[OF s'(2,3)]
    show ?thesis
      unfolding res using F(1,6) by (simp add: fin_np_def)
  qed
  then show "length res = length ps" and "\<And>j. j < length ps \<Longrightarrow> finalized (res ! j)"
    by blast+
qed

subsection \<open>While no clock value leaves the range of \<^verbatim>\<open>int\<close>\<close>

lemma ready_np_ok: "ready_np t p \<Longrightarrow> ready_ok t p"
  by (simp add: ready_np_def ready_ok_def)

lemma ready_ok_mono: "ready_ok t p \<Longrightarrow> t \<le> t' \<Longrightarrow> ready_ok t' p"
  by (auto simp: ready_ok_def split: if_splits)

lemma ready_np_mono: "ready_np t p \<Longrightarrow> t \<le> t' \<Longrightarrow> ready_np t' p"
  by (auto simp: ready_np_def)

lemma done_ok_mono: "done_ok t p \<Longrightarrow> t \<le> t' \<Longrightarrow> done_ok t' p"
  by (auto simp: done_ok_def)

lemma fresh_ready_np: "valid_process p \<Longrightarrow> sint (arrivalTime p) \<le> t \<Longrightarrow> ready_np t p"
  by (simp add: ready_np_def valid_process_def)

lemma fresh_ready_ok: "valid_process p \<Longrightarrow> sint (arrivalTime p) \<le> t \<Longrightarrow> ready_ok t p"
  by (rule ready_np_ok[OF fresh_ready_np])

text \<open>The two sums of the bound do not depend on the order of the vector.\<close>

lemma latest_arrival_Max:
  "latest_arrival ps = Max (insert 0 ((\<lambda>p. sint (arrivalTime p)) ` set ps))"
proof (induction ps)
  case Nil
  then show ?case by (simp add: latest_arrival_def)
next
  case (Cons p ps)
  have "latest_arrival (p # ps) = max (sint (arrivalTime p)) (latest_arrival ps)"
    by (simp add: latest_arrival_def)
  also have "\<dots> = Max (insert (sint (arrivalTime p)) (insert 0 ((\<lambda>p. sint (arrivalTime p)) ` set ps)))"
    unfolding Cons.IH by (subst Max_insert) simp_all
  also have "\<dots> = Max (insert 0 ((\<lambda>p. sint (arrivalTime p)) ` set (p # ps)))"
    by (simp add: insert_commute)
  finally show ?case .
qed

lemma latest_arrival_ge: "p \<in> set ps \<Longrightarrow> sint (arrivalTime p) \<le> latest_arrival ps"
  unfolding latest_arrival_Max by (intro Max_ge) simp_all

lemma latest_arrival_nonneg: "0 \<le> latest_arrival ps"
  unfolding latest_arrival_Max by (intro Max_ge) simp_all

lemma latest_arrival_mset: "mset ps = mset qs \<Longrightarrow> latest_arrival ps = latest_arrival qs"
  unfolding latest_arrival_Max using mset_eq_setD by fastforce

lemma total_burst_mset: "mset ps = mset qs \<Longrightarrow> total_burst ps = total_burst qs"
proof -
  assume "mset ps = mset qs"
  then have "mset (map (\<lambda>p. sint (burstTime p)) ps) = mset (map (\<lambda>p. sint (burstTime p)) qs)"
    by simp
  then show ?thesis unfolding total_burst_def by (metis sum_mset_sum_list)
qed

lemma fits_start: "fits (processes (start pol ps)) = fits ps"
  using latest_arrival_mset[OF mset_start[of pol ps]] total_burst_mset[OF mset_start[of pol ps]]
  by (simp add: fits_def)

lemma total_burst_nth: "total_burst ps = (\<Sum>j<length ps. sint (burstTime (ps ! j)))"
proof -
  have "total_burst ps = (\<Sum>j = 0..<length ps. map (\<lambda>p. sint (burstTime p)) ps ! j)"
    unfolding total_burst_def by (subst sum_list_sum_nth) simp
  also have "\<dots> = (\<Sum>j = 0..<length ps. sint (burstTime (ps ! j)))"
    by (rule sum.cong) simp_all
  finally show ?thesis by (simp add: atLeast0LessThan)
qed

text \<open>The processes not yet completed, and the time they still need.\<close>

lemma finite_undone [simp]: "finite (undone s)"
  by (simp add: undone_def)

lemma undone_admit:
  assumes "push_ok push" "idx s \<le> length (processes s)"
  shows "undone (admit push s) = undone s"
proof -
  note P = admit_props[OF assms(1), of s]
  have "mset (pq (admit push s)) = mset (pq s @ [idx s ..< idx (admit push s)])"
    using P by simp
  then have "set (pq (admit push s)) = set (pq s @ [idx s ..< idx (admit push s)])"
    by (rule mset_eq_setD)
  then have "set (pq (admit push s)) = set (pq s) \<union> {idx s ..< idx (admit push s)}"
    by simp
  moreover have "idx s \<le> idx (admit push s)" using P by simp
  ultimately show ?thesis
    unfolding undone_def by auto
qed

lemma work_admit:
  "push_ok push \<Longrightarrow> idx s \<le> length (processes s) \<Longrightarrow> work (admit push s) = work s"
  by (simp add: work_def undone_admit)

lemma work_cong:
  assumes "mset (pq t) = mset (pq s)" "processes t = processes s" "idx t = idx s"
  shows "work t = work s"
proof -
  have "set (pq t) = set (pq s)" using assms(1) by (rule mset_eq_setD)
  then have "undone t = undone s" using assms(2,3) by (simp add: undone_def)
  then show ?thesis using assms(2) by (simp add: work_def)
qed

lemma work_clock [simp]:
  "work (s\<lparr>currentTime := c\<rparr>) = work s"
  by (simp add: work_def undone_def)

lemma sinv_undone:
  assumes v: "valid ps" and Rok: "\<And>t p. R t p \<Longrightarrow> ready_ok t p"
    and i: "sinv R D L ps s" and j: "j \<in> undone s"
  shows "0 < sint (remainingTime (processes s ! j))"
    and "sint (remainingTime (processes s ! j)) \<le> sint (burstTime (ps ! j))"
    and "j < length ps"
proof -
  have len: "length (processes s) = length ps"
    and st: "\<forall>j<length ps. same_static (processes s ! j) (ps ! j)"
    and fresh: "\<forall>j<length ps. idx s \<le> j \<longrightarrow> processes s ! j = ps ! j"
    and rdy: "\<forall>j\<in>set (pq s). R (sint (currentTime s)) (processes s ! j)"
    using i unfolding sinv_def by blast+
  show jl: "j < length ps" using j len by (simp add: undone_def)
  have vj: "valid_process (ps ! j)" by (rule valid_nth[OF v jl])
  have "0 < sint (remainingTime (processes s ! j))
        \<and> sint (remainingTime (processes s ! j)) \<le> sint (burstTime (ps ! j))"
  proof (cases "j \<in> set (pq s)")
    case True
    with rdy have "ready_ok (sint (currentTime s)) (processes s ! j)" by (simp add: Rok)
    moreover have "burstTime (processes s ! j) = burstTime (ps ! j)"
      using st jl by (simp add: same_static_def)
    ultimately show ?thesis by (simp add: ready_ok_def)
  next
    case False
    with j have "idx s \<le> j" by (simp add: undone_def)
    with fresh jl have "processes s ! j = ps ! j" by simp
    with vj show ?thesis by (simp add: valid_process_def)
  qed
  then show "0 < sint (remainingTime (processes s ! j))"
    and "sint (remainingTime (processes s ! j)) \<le> sint (burstTime (ps ! j))"
    by simp_all
qed

lemma work_ge:
  assumes v: "valid ps" and Rok: "\<And>t p. R t p \<Longrightarrow> ready_ok t p"
    and i: "sinv R D L ps s" and p: "p \<in> undone s"
  shows "sint (remainingTime (processes s ! p)) \<le> work s"
  unfolding work_def
proof (rule member_le_sum[OF p])
  fix x assume "x \<in> undone s - {p}"
  then have "x \<in> undone s" by simp
  from sinv_undone(1)[OF v Rok i this]
  show "0 \<le> sint (remainingTime (processes s ! x))" by simp
qed simp

lemma work_le_total:
  assumes v: "valid ps" and Rok: "\<And>t p. R t p \<Longrightarrow> ready_ok t p"
    and i: "sinv R D L ps s"
  shows "work s \<le> total_burst ps"
proof -
  have "work s \<le> (\<Sum>j\<in>undone s. sint (burstTime (ps ! j)))"
    unfolding work_def by (rule sum_mono) (rule sinv_undone(2)[OF v Rok i])
  also have "\<dots> \<le> (\<Sum>j\<in>{..<length ps}. sint (burstTime (ps ! j)))"
  proof (rule sum_mono2)
    show "undone s \<subseteq> {..<length ps}"
      using sinv_undone(3)[OF v Rok i] by auto
    fix b assume "b \<in> {..<length ps} - undone s"
    then have "valid_process (ps ! b)" using valid_nth[OF v] by simp
    then show "0 \<le> sint (burstTime (ps ! b))" by (simp add: valid_process_def)
  qed simp
  finally show ?thesis by (simp add: total_burst_nth)
qed

lemma pq_undone:
  assumes "sinv R D L ps s" "p \<in> set (pq s)"
  shows "p \<in> undone s"
  using sinv_pq_facts(2)[OF assms] assms(2) by (simp add: undone_def)

text \<open>A process leaves the ready set, or stays in it after a slice.\<close>

lemma work_complete:
  assumes i: "sinv R D L ps s" and p: "p \<in> set (pq s)"
    and q: "add_mset p (mset q) = mset (pq s)"
    and t: "processes t = (processes s)[p := r]" "pq t = q" "idx t = idx s"
  shows "work t = work s - sint (remainingTime (processes s ! p))"
proof -
  have d: "distinct (pq s)" and sub: "\<forall>j\<in>set (pq s). j < idx s"
    using i unfolding sinv_def by blast+
  have m: "mset (pq s) = mset (p # q)" using q by simp
  have dq: "distinct (p # q)"
    using mset_eq_imp_distinct_iff[OF m] d by blast
  have sq: "set (pq s) = set (p # q)"
    using mset_eq_setD[OF m] .
  have pi: "p < idx s" using sub p by simp
  have u: "undone t = undone s - {p}"
    using dq sq pi t unfolding undone_def by auto
  have "work t = (\<Sum>j\<in>undone s - {p}. sint (remainingTime (processes s ! j)))"
    unfolding work_def u by (rule sum.cong) (simp_all add: t)
  also have "\<dots> = work s - sint (remainingTime (processes s ! p))"
    unfolding work_def using pq_undone[OF i p] by (simp add: sum_diff1)
  finally show ?thesis .
qed

lemma work_requeue:
  assumes i: "sinv R D L ps s" and p: "p \<in> set (pq s)"
    and q: "mset q = mset (pq s)"
    and t: "processes t = (processes s)[p := r]" "pq t = q" "idx t = idx s"
  shows "work t = work s - sint (remainingTime (processes s ! p)) + sint (remainingTime r)"
proof -
  have sq: "set q = set (pq s)"
    using mset_eq_setD[OF q] .
  have pl: "p < length (processes s)" by (rule sinv_pq_facts(2)[OF i p])
  have pu: "p \<in> undone s" by (rule pq_undone[OF i p])
  have u: "undone t = undone s"
    using sq t unfolding undone_def by auto
  have "work t = sint (remainingTime (processes t ! p))
                 + (\<Sum>j\<in>undone s - {p}. sint (remainingTime (processes t ! j)))"
    unfolding work_def u using pu by (simp add: sum.remove)
  also have "(\<Sum>j\<in>undone s - {p}. sint (remainingTime (processes t ! j)))
             = (\<Sum>j\<in>undone s - {p}. sint (remainingTime (processes s ! j)))"
    by (rule sum.cong) (simp_all add: t)
  also have "\<dots> = work s - sint (remainingTime (processes s ! p))"
    unfolding work_def using pu by (simp add: sum_diff1)
  finally show ?thesis using pl by (simp add: t)
qed

subsection \<open>The loop bodies keep the clock in range\<close>

lemma tinv_admit:
  assumes ok: "push_ok push" and v: "valid ps" and i: "tinv R ps s"
    and fr: "\<And>p t. valid_process p \<Longrightarrow> sint (arrivalTime p) \<le> t \<Longrightarrow> R t p"
  shows "tinv R ps (admit push s)"
proof -
  have s: "sinv R done_ok last_ok ps s" using i by (simp add: tinv_def)
  then have "idx s \<le> length (processes s)" by (simp add: sinv_def cnt_inv_def)
  then have "work (admit push s) = work s" by (rule work_admit[OF ok])
  with sinv_admit[OF ok v s fr] i show ?thesis by (simp add: tinv_def)
qed

lemma tinv_mset_cong:
  assumes "tinv R ps s" "mset (pq t) = mset (pq s)" "processes t = processes s"
    "currentTime t = currentTime s" "completed t = completed s" "idx t = idx s"
  shows "tinv R ps t"
proof -
  have "sinv R done_ok last_ok ps t"
    by (rule sinv_mset_cong[OF _ assms(2-)]) (use assms(1) in \<open>simp add: tinv_def\<close>)
  moreover have "work t = work s" by (rule work_cong[OF assms(2,3,6)])
  ultimately show ?thesis using assms(1,4,5) by (simp add: tinv_def)
qed

lemma tinv_fast_forward:
  assumes v: "valid ps" and Rok: "\<And>t p. R t p \<Longrightarrow> ready_ok t p"
    and i: "tinv R ps s1" and e: "pq s1 = []" and na: "\<not> arrived s1"
    and ff: "fast_forward s1 = Inr s'"
  shows "tinv R ps s'"
proof -
  note F = fast_forward_Inr[OF ff]
  have s: "sinv R done_ok last_ok ps s1" and c0: "0 \<le> sint (currentTime s1)"
    and cc: "int (completed s1) \<le> sint (currentTime s1)"
    using i by (simp_all add: tinv_def)
  have len: "length (processes s1) = length ps"
    and fresh: "\<forall>j<length ps. idx s1 \<le> j \<longrightarrow> processes s1 ! j = ps ! j"
    using s unfolding sinv_def by blast+
  define a where "a = arrivalTime (processes s1 ! idx s1)"
  have lt: "sint (currentTime s1) < sint a"
    using na F(1) by (simp add: arrived_def a_def)
  have "processes s1 ! idx s1 = ps ! idx s1" using fresh F(1) len by simp
  then have "sint a \<le> latest_arrival ps"
    using F(1) len by (simp add: a_def latest_arrival_ge)
  moreover have "work s1 \<le> total_burst ps" by (rule work_le_total[OF v Rok s])
  ultimately have b: "sint a + work s1 \<le> latest_arrival ps + total_burst ps" by linarith
  have "sinv R done_ok last_ok ps (s1\<lparr>currentTime := a\<rparr>)"
    by (rule sinv_fast_forward[OF s e]) (use lt in \<open>auto intro: done_ok_mono\<close>)
  then show ?thesis
    using c0 cc lt b unfolding F(2) a_def[symmetric] by (simp add: tinv_def)
qed

text \<open>What is known of the process at the top of the ready set.\<close>

lemma tinv_top:
  assumes v: "valid ps" and f: "fits ps" and Rok: "\<And>t p. R t p \<Longrightarrow> ready_ok t p"
    and i: "tinv R ps s" and p: "p \<in> set (pq s)"
  shows "0 \<le> sint (arrivalTime (processes s ! p))"
    and "0 < sint (burstTime (processes s ! p))"
    and "ready_ok (sint (currentTime s)) (processes s ! p)"
    and "sint (currentTime s) + sint (remainingTime (processes s ! p)) < 2 ^ 31"
    and "sint (remainingTime (processes s ! p)) \<le> work s"
proof -
  have s: "sinv R done_ok last_ok ps s"
    and b: "sint (currentTime s) + work s \<le> latest_arrival ps + total_burst ps"
    using i by (simp_all add: tinv_def)
  note P = sinv_pq_facts[OF s p]
  have "valid_process (ps ! p)" by (rule valid_nth[OF v P(1)])
  with P(4) show "0 \<le> sint (arrivalTime (processes s ! p))"
    and "0 < sint (burstTime (processes s ! p))"
    by (simp_all add: same_static_def valid_process_def)
  show "ready_ok (sint (currentTime s)) (processes s ! p)" by (rule Rok[OF P(3)])
  show w: "sint (remainingTime (processes s ! p)) \<le> work s"
    by (rule work_ge[OF v Rok s pq_undone[OF s p]])
  from f have "latest_arrival ps + total_burst ps < 2 ^ 31" by (simp add: fits_def)
  with w b show "sint (currentTime s) + sint (remainingTime (processes s ! p)) < 2 ^ 31"
    by linarith
qed

text \<open>The response time once the process has been dispatched.\<close>

lemma set_response_ready:
  assumes "ready_ok (sint t) p0" "0 \<le> sint (arrivalTime p0)" "0 \<le> sint t"
  shows "0 \<le> sint (responseTime (set_response t p0))"
    and "sint (arrivalTime p0) + sint (responseTime (set_response t p0))
           + (sint (burstTime p0) - sint (remainingTime p0)) \<le> sint t"
    and "responseTime (set_response t p0) \<noteq> -1"
proof -
  have sub: "sint (t - arrivalTime p0) = sint t - sint (arrivalTime p0)"
    using assms(2,3) by (rule sint_sub_nonneg)
  have le: "sint (arrivalTime p0) \<le> sint t" using assms(1) by (simp add: ready_ok_def)
  show 1: "0 \<le> sint (responseTime (set_response t p0))"
    using assms(1) sub le by (auto simp: ready_ok_def set_response_def split: if_splits)
  show "sint (arrivalTime p0) + sint (responseTime (set_response t p0))
           + (sint (burstTime p0) - sint (remainingTime p0)) \<le> sint t"
    using assms(1) sub le by (auto simp: ready_ok_def set_response_def split: if_splits)
  show "responseTime (set_response t p0) \<noteq> -1"
    using 1 by auto
qed

text \<open>
  A slice of \<open>e\<close> units, at least one and at most the remaining time, given to the process
  \<open>p\<close> of the ready set: the slice that ends the process, and the slice that does not.
\<close>

lemma tinv_slice:
  assumes v: "valid ps" and f: "fits ps" and i: "tinv ready_ok ps s1"
    and pin: "p \<in> set (pq s1)"
    and r: "r = set_response (currentTime s1) (processes s1 ! p)"
    and e: "1 \<le> sint e" "sint e \<le> sint (remainingTime r)"
    and r1: "r1 = r\<lparr>remainingTime := remainingTime r - e\<rparr>"
    and now: "now = currentTime s1 + e"
  shows "sint e = sint (remainingTime r) \<Longrightarrow> add_mset p (mset q) = mset (pq s1) \<Longrightarrow>
           tinv ready_ok ps (s1\<lparr>processes := (processes s1)[p := finalize now r1], pq := q,
                                currentTime := now, completed := completed s1 + 1\<rparr>)"
    and "sint e < sint (remainingTime r) \<Longrightarrow> mset q = mset (pq s1) \<Longrightarrow>
           tinv ready_ok ps (s1\<lparr>processes := (processes s1)[p := r1], pq := q,
                                currentTime := now\<rparr>)"
    and "sint (remainingTime r1) = sint (remainingTime r) - sint e"
proof -
  have s: "sinv ready_ok done_ok last_ok ps s1" and c0: "0 \<le> sint (currentTime s1)"
    and cc: "int (completed s1) \<le> sint (currentTime s1)"
    and b: "sint (currentTime s1) + work s1 \<le> latest_arrival ps + total_burst ps"
    using i by (simp_all add: tinv_def)
  define P where "P = processes s1 ! p"
  define a where "a = arrivalTime P"
  define bt where "bt = burstTime P"
  define rm where "rm = remainingTime P"
  note T = tinv_top[OF v f _ i pin, folded P_def a_def bt_def rm_def]
  have a0: "0 \<le> sint a" and b0: "0 < sint bt" and rk: "ready_ok (sint (currentTime s1)) P"
    and rng: "sint (currentTime s1) + sint rm < 2 ^ 31" and wg: "sint rm \<le> work s1"
    using T by simp_all
  have fr: "arrivalTime r = a" "burstTime r = bt" "remainingTime r = rm"
    by (simp_all add: r P_def a_def bt_def rm_def)
  have f1: "arrivalTime r1 = a" "burstTime r1 = bt" "remainingTime r1 = rm - e"
    "responseTime r1 = responseTime r"
    by (simp_all add: r1 fr)
  note R = set_response_ready[OF rk _ c0, folded r[unfolded P_def[symmetric]],
      unfolded a_def[symmetric] bt_def[symmetric] rm_def[symmetric], OF a0]
  have ac: "sint a \<le> sint (currentTime s1)" and rb: "sint rm \<le> sint bt" and r0: "0 < sint rm"
    using rk by (simp_all add: ready_ok_def a_def bt_def rm_def)
  have e': "1 \<le> sint e" "sint e \<le> sint rm" using e by (simp_all add: fr)
  have sn: "sint now = sint (currentTime s1) + sint e"
    unfolding now using c0 e' rng by (intro sint_add_ok) linarith+
  have n0: "0 \<le> sint now" and cn: "sint (currentTime s1) \<le> sint now"
    using sn c0 e' by simp_all
  have sub: "sint (rm - e) = sint rm - sint e"
    using e' r0 by (intro sint_sub_nonneg) simp_all
  show "sint (remainingTime r1) = sint (remainingTime r) - sint e"
    by (simp add: f1 fr sub)
  have ta: "sint (now - a) = sint now - sint a"
    using a0 n0 by (rule sint_sub_nonneg)
  have wa: "sint (now - a - bt) = sint now - sint a - sint bt"
    using sint_sub_nonneg[of bt "now - a"] b0 ta ac cn by simp
  have RT: "ready_ok (sint (currentTime s1)) x \<Longrightarrow> ready_ok (sint now) x" for x
    using cn by (rule ready_ok_mono[rotated])
  have DT: "done_ok (sint (currentTime s1)) x \<Longrightarrow> done_ok (sint now) x" for x
    using cn by (rule done_ok_mono[rotated])
  {
    assume eq: "sint e = sint (remainingTime r)" and q: "add_mset p (mset q) = mset (pq s1)"
    let ?t = "s1\<lparr>processes := (processes s1)[p := finalize now r1], pq := q,
                                currentTime := now, completed := completed s1 + 1\<rparr>"
    have eq': "sint e = sint rm" using eq by (simp add: fr)
    have st: "same_static (finalize now r1) (processes s1 ! p)"
      by (simp add: same_static_def r1 r)
    have dn: "done_ok (sint now) (finalize now r1)"
      using R ta wa sn eq' by (simp add: done_ok_def f1)
    have l: "last_ok (completed s1 + 1) (finalize now r1)"
      using cc sn e' by (simp add: last_ok_def)
    have si: "sinv ready_ok done_ok last_ok ps ?t"
      by (rule sinv_complete[OF s pin q st dn l RT DT])
    have "work ?t = work s1 - sint (remainingTime (processes s1 ! p))"
      by (rule work_complete[OF s pin q]) simp_all
    then have w: "work ?t = work s1 - sint rm" by (simp add: rm_def P_def)
    show "tinv ready_ok ps ?t"
      unfolding tinv_def using si w n0 cc sn e' eq' b by simp
  }
  {
    assume lt: "sint e < sint (remainingTime r)" and q: "mset q = mset (pq s1)"
    let ?t = "s1\<lparr>processes := (processes s1)[p := r1], pq := q, currentTime := now\<rparr>"
    have lt': "sint e < sint rm" using lt by (simp add: fr)
    have st: "same_static r1 (processes s1 ! p)"
      by (simp add: same_static_def r1 r)
    have rd: "ready_ok (sint now) r1"
      using R sn sub lt' ac rb cn e' by (simp add: ready_ok_def f1)
    have si: "sinv ready_ok done_ok last_ok ps ?t"
      by (rule sinv_requeue[OF s pin q st rd RT DT])
    have w0: "work ?t = work s1 - sint (remainingTime (processes s1 ! p)) + sint (remainingTime r1)"
      by (rule work_requeue[OF s pin q]) simp_all
    have w: "work ?t = work s1 - sint e"
      using w0 sub unfolding f1 rm_def P_def by linarith
    show "tinv ready_ok ps ?t"
      unfolding tinv_def using si w n0 cc sn e' b by simp
  }
qed

text \<open>A non-preemptive dispatch: the process runs for its whole burst time.\<close>

lemma tinv_np_dispatch:
  assumes v: "valid ps" and f: "fits ps" and i: "tinv ready_np ps s1"
    and pin: "p \<in> set (pq s1)"
    and r: "r = set_response (currentTime s1) (processes s1 ! p)"
    and r': "r' = finalize (currentTime s1 + burstTime r) r"
    and q: "add_mset p (mset q) = mset (pq s1)"
  shows "tinv ready_np ps (s1\<lparr>processes := (processes s1)[p := r'], pq := q,
              currentTime := completionTime r', completed := completed s1 + 1\<rparr>)"
proof -
  let ?t = "s1\<lparr>processes := (processes s1)[p := r'], pq := q,
              currentTime := completionTime r', completed := completed s1 + 1\<rparr>"
  have s: "sinv ready_np done_ok last_ok ps s1" and c0: "0 \<le> sint (currentTime s1)"
    and cc: "int (completed s1) \<le> sint (currentTime s1)"
    and b: "sint (currentTime s1) + work s1 \<le> latest_arrival ps + total_burst ps"
    using i by (simp_all add: tinv_def)
  define P where "P = processes s1 ! p"
  define a where "a = arrivalTime P"
  define bt where "bt = burstTime P"
  define now where "now = currentTime s1 + bt"
  have np: "ready_np (sint (currentTime s1)) P"
    using sinv_pq_facts(3)[OF s pin] by (simp add: P_def)
  then have rmb: "remainingTime P = bt" and rs: "responseTime P = -1"
    and ac: "sint a \<le> sint (currentTime s1)"
    by (simp_all add: ready_np_def bt_def a_def)
  note T = tinv_top[OF v f ready_np_ok i pin, folded P_def a_def, unfolded rmb]
  have a0: "0 \<le> sint a" and b0: "0 < sint bt"
    and rng: "sint (currentTime s1) + sint bt < 2 ^ 31" and wg: "sint bt \<le> work s1"
    using T by (simp_all add: bt_def)
  have fr: "arrivalTime r = a" "burstTime r = bt"
    "responseTime r = currentTime s1 - a"
    using rs by (simp_all add: r P_def[symmetric] a_def bt_def set_response_def)
  have cr: "completionTime r' = now" by (simp add: r' now_def fr)
  have sn: "sint now = sint (currentTime s1) + sint bt"
    unfolding now_def using c0 b0 rng by (intro sint_add_ok) linarith+
  have n0: "0 \<le> sint now" and cn: "sint (currentTime s1) \<le> sint now"
    using sn c0 b0 by simp_all
  have rsp: "sint (currentTime s1 - a) = sint (currentTime s1) - sint a"
    using a0 c0 by (rule sint_sub_nonneg)
  have ta: "sint (now - a) = sint now - sint a"
    using a0 n0 by (rule sint_sub_nonneg)
  have wa: "sint (now - a - bt) = sint now - sint a - sint bt"
    using sint_sub_nonneg[of bt "now - a"] b0 ta ac cn by simp
  have RT: "ready_np (sint (currentTime s1)) x \<Longrightarrow> ready_np (sint now) x" for x
    using cn by (rule ready_np_mono[rotated])
  have DT: "done_ok (sint (currentTime s1)) x \<Longrightarrow> done_ok (sint now) x" for x
    using cn by (rule done_ok_mono[rotated])
  have st: "same_static r' (processes s1 ! p)"
    by (simp add: same_static_def r' r)
  have dn: "done_ok (sint now) r'"
    using rsp ta wa sn ac by (simp add: done_ok_def r' fr now_def[symmetric])
  have l: "last_ok (completed s1 + 1) r'"
    using cc sn b0 by (simp add: last_ok_def cr)
  have si: "sinv ready_np done_ok last_ok ps (s1\<lparr>processes := (processes s1)[p := r'], pq := q,
              currentTime := now, completed := completed s1 + 1\<rparr>)"
    by (rule sinv_complete[OF s pin q st dn l RT DT])
  have "work ?t = work s1 - sint (remainingTime (processes s1 ! p))"
    by (rule work_complete[OF s pin q]) simp_all
  then have w: "work ?t = work s1 - sint bt" by (simp add: rmb P_def[symmetric])
  show ?thesis
    unfolding tinv_def using si w n0 cc sn b0 b by (simp add: cr)
qed

lemma t_np_step:
  assumes v: "valid ps" and f: "fits ps" and i: "tinv ready_np ps s"
    and b: "np_body cmp s = Inr s'"
  shows "tinv ready_np ps s'"
proof -
  let ?push = "\<lambda>ps. pq_push (cmp ps)"
  define s1 where "s1 = admit ?push s"
  note ok = push_ok_pq_push[of cmp]
  have i1: "tinv ready_np ps s1"
    unfolding s1_def by (rule tinv_admit[OF ok v i fresh_ready_np])
  have na: "\<not> arrived s1"
    using admit_props[OF ok, of s] by (simp add: s1_def)
  show ?thesis
  proof (cases "pq s1 = []")
    case True
    then have "fast_forward s1 = Inr s'"
      using b by (simp add: np_body_empty s1_def)
    from tinv_fast_forward[OF v ready_np_ok i1 True na this] show ?thesis .
  next
    case False
    define p where "p = hd (pq s1)"
    define q where "q = pq_pop (cmp (processes s1)) (pq s1)"
    define r where "r = set_response (currentTime s1) (processes s1 ! p)"
    define r' where "r' = finalize (currentTime s1 + burstTime r) r"
    have s': "s' = s1\<lparr>processes := (processes s1)[p := r'], pq := q,
              currentTime := completionTime r', completed := completed s1 + 1\<rparr>"
      using np_body_dispatch[OF s1_def False p_def q_def r_def r'_def] b by simp
    have pin: "p \<in> set (pq s1)" using False by (simp add: p_def)
    have mq: "add_mset p (mset q) = mset (pq s1)"
      unfolding p_def q_def by (rule mset_pq_pop[OF False])
    show ?thesis
      unfolding s' by (rule tinv_np_dispatch[OF v f i1 pin r_def r'_def mq])
  qed
qed

lemma t_pr_step:
  assumes v: "valid ps" and f: "fits ps" and i: "tinv ready_ok ps s"
    and b: "pr_body cmp s = Inr s'"
  shows "tinv ready_ok ps s'"
proof -
  let ?push = "\<lambda>ps. pq_push (cmp ps)"
  define s1 where "s1 = admit ?push s"
  note ok = push_ok_pq_push[of cmp]
  have i1: "tinv ready_ok ps s1"
    unfolding s1_def by (rule tinv_admit[OF ok v i fresh_ready_ok])
  have na: "\<not> arrived s1"
    using admit_props[OF ok, of s] by (simp add: s1_def)
  show ?thesis
  proof (cases "pq s1 = []")
    case True
    then have "fast_forward s1 = Inr s'"
      using b by (simp add: pr_body_empty s1_def)
    from tinv_fast_forward[OF v _ i1 True na this] show ?thesis .
  next
    case False
    define p where "p = hd (pq s1)"
    define q where "q = pq_pop (cmp (processes s1)) (pq s1)"
    define r where "r = set_response (currentTime s1) (processes s1 ! p)"
    define e where "e = (if idx s1 < length (processes s1)
               then smin (remainingTime r) (arrivalTime (processes s1 ! idx s1) - currentTime s1)
               else remainingTime r)"
    define r1 where "r1 = r\<lparr>remainingTime := remainingTime r - e\<rparr>"
    define now where "now = currentTime s1 + e"
    note B = pr_body_dispatch[OF s1_def False p_def q_def r_def e_def r1_def now_def]
    have pin: "p \<in> set (pq s1)" using False by (simp add: p_def)
    have mq: "add_mset p (mset q) = mset (pq s1)"
      unfolding p_def q_def by (rule mset_pq_pop[OF False])
    have c0: "0 \<le> sint (currentTime s1)" using i1 by (simp add: tinv_def)
    have rp: "0 < sint (remainingTime r)"
      using tinv_top(3)[OF v f _ i1 pin] by (simp add: ready_ok_def r_def)
    have gap: "1 \<le> sint (arrivalTime (processes s1 ! idx s1) - currentTime s1)"
      if "idx s1 < length (processes s1)"
    proof -
      have lt: "sint (currentTime s1) < sint (arrivalTime (processes s1 ! idx s1))"
        using na that by (simp add: arrived_def)
      then have "sint (arrivalTime (processes s1 ! idx s1) - currentTime s1)
          = sint (arrivalTime (processes s1 ! idx s1)) - sint (currentTime s1)"
        using c0 by (intro sint_sub_nonneg) simp_all
      with lt show ?thesis by simp
    qed
    have e: "1 \<le> sint e" "sint e \<le> sint (remainingTime r)"
      using rp gap by (auto simp: e_def smin_cases)
    note S = tinv_slice[OF v f i1 pin r_def e r1_def now_def]
    show ?thesis
    proof (cases "remainingTime r1 = 0")
      case True
      have s': "s' = s1\<lparr>processes := (processes s1)[p := finalize now r1], pq := q,
                      currentTime := now, completed := completed s1 + 1\<rparr>"
        using B b True by simp
      have "sint e = sint (remainingTime r)" using S(3) True by simp
      from S(1)[OF this mq] show ?thesis unfolding s' .
    next
      case nz: False
      have s': "s' = s1\<lparr>processes := (processes s1)[p := r1],
                      pq := pq_push (cmp ((processes s1)[p := r1])) q p, currentTime := now\<rparr>"
        using B b nz by simp
      have m: "mset (pq_push (cmp ((processes s1)[p := r1])) q p) = mset (pq s1)"
        using mq by (simp add: mset_pq_push)
      have "sint (remainingTime r1) \<noteq> 0" using nz by (simp add: sint_eq_0_iff)
      with S(3) e have "sint e < sint (remainingTime r)" by simp
      from S(2)[OF this m] show ?thesis unfolding s' .
    qed
  qed
qed

lemma t_rr_step:
  assumes v: "valid ps" and f: "fits ps" and tq: "0 < sint tq" and i: "tinv ready_ok ps s"
    and b: "rr_body tq s = Inr s'"
  shows "tinv ready_ok ps s'"
proof -
  define s1 where "s1 = admit queue_push s"
  note ok = push_ok_queue_push
  have i1: "tinv ready_ok ps s1"
    unfolding s1_def by (rule tinv_admit[OF ok v i fresh_ready_ok])
  have na: "\<not> arrived s1"
    using admit_props[OF ok, of s] by (simp add: s1_def)
  show ?thesis
  proof (cases "pq s1 = []")
    case True
    then have "fast_forward s1 = Inr s'"
      using b by (simp add: rr_body_empty s1_def)
    from tinv_fast_forward[OF v _ i1 True na this] show ?thesis .
  next
    case False
    define p where "p = hd (pq s1)"
    define r where "r = set_response (currentTime s1) (processes s1 ! p)"
    define e where "e = smin tq (remainingTime r)"
    define r1 where "r1 = r\<lparr>remainingTime := remainingTime r - e\<rparr>"
    define now where "now = currentTime s1 + e"
    note D = s1_def False p_def r_def e_def r1_def now_def
    have pin: "p \<in> set (pq s1)" using False by (simp add: p_def)
    have hd_tl: "pq s1 = p # tl (pq s1)" using False by (simp add: p_def)
    have rp: "0 < sint (remainingTime r)"
      using tinv_top(3)[OF v f _ i1 pin] by (simp add: ready_ok_def r_def)
    have e: "1 \<le> sint e" "sint e \<le> sint (remainingTime r)"
      using rp tq by (simp_all add: e_def smin_cases)
    note S = tinv_slice[OF v f i1 pin r_def e r1_def now_def]
    show ?thesis
    proof (cases "sint (remainingTime r1) > 0")
      case True
      define t0 where "t0 = s1\<lparr>processes := (processes s1)[p := r1], pq := pq s1, currentTime := now\<rparr>"
      define t where "t = admit queue_push t0"
      have tt: "t = admit queue_push (s1\<lparr>processes := (processes s1)[p := r1], currentTime := now\<rparr>)"
        by (simp add: t_def t0_def)
      note C = rr_body_requeue[OF D True tt b]
      have "sint e < sint (remainingTime r)" using S(3) True by simp
      from S(2)[OF this refl] have "tinv ready_ok ps t0" unfolding t0_def .
      then have "tinv ready_ok ps t"
        unfolding t_def by (rule tinv_admit[OF ok v _ fresh_ready_ok])
      then show ?thesis
        by (rule tinv_mset_cong[OF _ C(1-5)])
    next
      case nz: False
      define u0 where "u0 = s1\<lparr>processes := (processes s1)[p := finalize now r1], pq := tl (pq s1),
                             currentTime := now, completed := completed s1 + 1\<rparr>"
      define u where "u = admit queue_push u0"
      note C = rr_body_complete[OF D nz u_def[unfolded u0_def] b]
      have mq: "add_mset p (mset (tl (pq s1))) = mset (pq s1)"
        by (subst (2) hd_tl) simp
      have "sint e = sint (remainingTime r)" using S(3) nz e by simp
      from S(1)[OF this mq] have "tinv ready_ok ps u0" unfolding u0_def .
      then have "tinv ready_ok ps u"
        unfolding u_def by (rule tinv_admit[OF ok v _ fresh_ready_ok])
      then show ?thesis
        by (rule tinv_mset_cong[OF _ C(1-5)])
    qed
  qed
qed

lemma body_tinv_step:
  assumes b: "loop_body pol = Some b" and v: "valid ps" and f: "fits ps"
    and vp: "valid_policy pol"
    and i: "tinv (timed_ready pol) ps s" and c: "completed s < length (processes s)"
  shows "\<exists>s'. b s = Inr s' \<and> tinv (timed_ready pol) ps s'"
proof -
  have cs: "cnt_inv s" using i by (simp add: tinv_def sinv_def)
  show ?thesis
  proof (cases pol)
    case FCFS
    with b show ?thesis by simp
  next
    case SJF
    with b i np_body_step[OF cs c, of sjf_cmp] t_np_step[OF v f, of s sjf_cmp]
    show ?thesis by auto
  next
    case SRTF
    with b i pr_body_step[OF cs c, of srtf_cmp] t_pr_step[OF v f, of s srtf_cmp]
    show ?thesis by auto
  next
    case (RoundRobin q)
    with vp have q: "0 < sint q" by simp
    from rr_body_step[OF cs c, of q] obtain s' where s': "rr_body q s = Inr s'" by blast
    from i have "tinv ready_ok ps s" by (simp add: RoundRobin)
    from t_rr_step[OF v f q this s'] s' b RoundRobin show ?thesis by auto
  next
    case Priority
    with b i np_body_step[OF cs c, of priority_cmp] t_np_step[OF v f, of s priority_cmp]
    show ?thesis by auto
  next
    case PreemptivePriority
    with b i pr_body_step[OF cs c, of preemptive_priority_cmp]
      t_pr_step[OF v f, of s preemptive_priority_cmp]
    show ?thesis by auto
  qed
qed

lemma timed_ready_ok: "timed_ready pol t p \<Longrightarrow> ready_ok t p"
  by (cases pol) (simp_all add: ready_np_ok)

lemma tinv_start:
  assumes v: "valid ps"
  shows "tinv R (processes (start pol ps)) (start pol ps)"
proof -
  let ?X = "processes (start pol ps)"
  have vX: "valid ?X" by (rule valid_start[OF v])
  have s: "start pol ps = init ?X" by (rule start_init)
  have u: "undone (init ?X) = {..<length ?X}"
    by (auto simp: undone_def init_def)
  have "work (init ?X) = (\<Sum>j<length ?X. sint (remainingTime (?X ! j)))"
    unfolding work_def u by (simp add: init_def)
  also have "\<dots> = (\<Sum>j<length ?X. sint (burstTime (?X ! j)))"
    by (rule sum.cong) (use valid_nth[OF vX] in \<open>simp_all add: valid_process_def\<close>)
  finally have w: "work (init ?X) = total_burst ?X" by (simp add: total_burst_nth)
  have "tinv R ?X (init ?X)"
    unfolding tinv_def using sinv_init[of R done_ok last_ok ?X] w latest_arrival_nonneg[of ?X]
    by (simp add: init_def)
  then show ?thesis using s by simp
qed

text \<open>FCFS, with the clock in range.\<close>

lemma fcfs_step_timed:
  assumes vp: "valid_process p" and t0: "0 \<le> sint t"
    and rng: "max (sint t) (sint (arrivalTime p)) + sint (burstTime p) < 2 ^ 31"
  shows "sint (fst (fcfs_step t p)) = max (sint t) (sint (arrivalTime p)) + sint (burstTime p)"
    and "done_ok (sint (fst (fcfs_step t p))) (snd (fcfs_step t p))"
    and "completionTime (snd (fcfs_step t p)) = fst (fcfs_step t p)"
proof -
  define a where "a = arrivalTime p"
  define bt where "bt = burstTime p"
  define u where "u = (if sint t < sint a then a else t)"
  define now where "now = u + bt"
  have a0: "0 \<le> sint a" and b0: "0 < sint bt"
    using vp by (simp_all add: valid_process_def a_def bt_def)
  have su: "sint u = max (sint t) (sint a)" by (simp add: u_def max_def)
  have u0: "0 \<le> sint u" and au: "sint a \<le> sint u" using su t0 by simp_all
  have rng': "sint u + sint bt < 2 ^ 31"
    using rng unfolding su a_def bt_def .
  have sn: "sint now = sint u + sint bt"
    unfolding now_def using u0 b0 rng' by (intro sint_add_ok) linarith+
  have n0: "0 \<le> sint now" using sn u0 b0 by simp
  have rs: "sint (u - a) = sint u - sint a"
    using a0 u0 by (rule sint_sub_nonneg)
  have ta: "sint (now - a) = sint now - sint a"
    using a0 n0 by (rule sint_sub_nonneg)
  have wa: "sint (now - a - bt) = sint now - sint a - sint bt"
    using sint_sub_nonneg[of bt "now - a"] b0 ta au sn by simp
  have st: "fcfs_step t p = (now, finalize now (p\<lparr>responseTime := u - a\<rparr>))"
    by (simp add: fcfs_step_def Let_def now_def u_def a_def bt_def)
  show "sint (fst (fcfs_step t p)) = max (sint t) (sint (arrivalTime p)) + sint (burstTime p)"
    using sn su by (simp add: st a_def bt_def)
  show "done_ok (sint (fst (fcfs_step t p))) (snd (fcfs_step t p))"
    using rs ta wa sn au by (simp add: st done_ok_def a_def[symmetric] bt_def[symmetric])
  show "completionTime (snd (fcfs_step t p)) = fst (fcfs_step t p)"
    by (simp add: st)
qed

lemma latest_arrival_Cons:
  "latest_arrival (p # ps) = max (sint (arrivalTime p)) (latest_arrival ps)"
  by (simp add: latest_arrival_def)

lemma total_burst_Cons: "total_burst (p # ps) = sint (burstTime p) + total_burst ps"
  by (simp add: total_burst_def)

lemma total_burst_nonneg: "valid ps \<Longrightarrow> 0 \<le> total_burst ps"
  by (induction ps) (simp_all add: valid_def valid_process_def total_burst_def)

lemma fcfs_loop_timed:
  "valid ps \<Longrightarrow> 0 \<le> sint t \<Longrightarrow> max (sint t) (latest_arrival ps) + total_burst ps < 2 ^ 31 \<Longrightarrow>
   j < length ps \<Longrightarrow> \<exists>u. done_ok u (fcfs_loop t ps ! j)"
proof (induction ps arbitrary: t j)
  case Nil
  then show ?case by simp
next
  case (Cons p ps)
  from Cons.prems(1) have vp: "valid_process p" and v: "valid ps"
    by (simp_all add: valid_def)
  have tb: "0 \<le> total_burst ps" by (rule total_burst_nonneg[OF v])
  have la: "0 \<le> latest_arrival ps" by (rule latest_arrival_nonneg)
  have b0: "0 < sint (burstTime p)" using vp by (simp add: valid_process_def)
  have rng: "max (sint t) (sint (arrivalTime p)) + sint (burstTime p) < 2 ^ 31"
    using Cons.prems(3) tb by (simp add: latest_arrival_Cons total_burst_Cons)
  note S = fcfs_step_timed[OF vp Cons.prems(2) rng]
  show ?case
  proof (cases j)
    case 0
    then show ?thesis
      using S(2) by (auto simp: fcfs_loop_Cons)
  next
    case (Suc k)
    with Cons.prems(4) have k: "k < length ps" by simp
    have t': "0 \<le> sint (fst (fcfs_step t p))"
      using S(1) Cons.prems(2) b0 by simp
    have rng': "max (sint (fst (fcfs_step t p))) (latest_arrival ps) + total_burst ps < 2 ^ 31"
      using Cons.prems(3) S(1) b0 by (simp add: latest_arrival_Cons total_burst_Cons)
    from Cons.IH[OF v t' rng' k] Suc show ?thesis
      by (simp add: fcfs_loop_Cons)
  qed
qed

lemma fcfs_loop_last:
  "valid ps \<Longrightarrow> 0 \<le> sint t \<Longrightarrow> max (sint t) (latest_arrival ps) + total_burst ps < 2 ^ 31 \<Longrightarrow>
   ps \<noteq> [] \<Longrightarrow>
   \<exists>j<length ps. sint t + int (length ps) \<le> sint (completionTime (fcfs_loop t ps ! j))"
proof (induction ps arbitrary: t)
  case Nil
  then show ?case by simp
next
  case (Cons p ps)
  from Cons.prems(1) have vp: "valid_process p" and v: "valid ps"
    by (simp_all add: valid_def)
  have tb: "0 \<le> total_burst ps" by (rule total_burst_nonneg[OF v])
  have b0: "0 < sint (burstTime p)" using vp by (simp add: valid_process_def)
  have rng: "max (sint t) (sint (arrivalTime p)) + sint (burstTime p) < 2 ^ 31"
    using Cons.prems(3) tb by (simp add: latest_arrival_Cons total_burst_Cons)
  note S = fcfs_step_timed[OF vp Cons.prems(2) rng]
  have step: "sint t + 1 \<le> sint (fst (fcfs_step t p))"
    using S(1) b0 by simp
  show ?case
  proof (cases "ps = []")
    case True
    then show ?thesis using S(3) step by (simp add: fcfs_loop_Cons)
  next
    case False
    have t': "0 \<le> sint (fst (fcfs_step t p))"
      using step Cons.prems(2) by simp
    have rng': "max (sint (fst (fcfs_step t p))) (latest_arrival ps) + total_burst ps < 2 ^ 31"
      using Cons.prems(3) S(1) b0 by (simp add: latest_arrival_Cons total_burst_Cons)
    from Cons.IH[OF v t' rng' False] obtain j where
      j: "j < length ps"
      "sint (fst (fcfs_step t p)) + int (length ps)
         \<le> sint (completionTime (fcfs_loop (fst (fcfs_step t p)) ps ! j))"
      by blast
    then have "Suc j < length (p # ps) \<and>
       sint t + int (length (p # ps)) \<le> sint (completionTime (fcfs_loop t (p # ps) ! Suc j))"
      using step by (simp add: fcfs_loop_Cons)
    then show ?thesis by blast
  qed
qed

text \<open>
  Every policy: a run that ends on a valid input that fits ends with every process
  finalised, with the bounds on its times.
\<close>

lemma simulate_timed:
  assumes v: "valid ps" and f: "fits ps" and vp: "valid_policy pol"
    and r: "simulate pol fuel ps = Some (Inr res)"
  shows "\<And>j. j < length ps \<Longrightarrow> \<exists>u. done_ok u (res ! j)"
    and "ps \<noteq> [] \<Longrightarrow> \<exists>j<length ps. int (length ps) \<le> sint (completionTime (res ! j))"
proof -
  let ?X = "processes (start pol ps)"
  have lX: "length ?X = length ps" by simp
  have vX: "valid ?X" by (rule valid_start[OF v])
  have fX: "fits ?X" using f by (simp add: fits_start)
  have ne: "?X \<noteq> []" if "ps \<noteq> []"
    using that lX by (metis length_0_conv)
  have "(\<forall>j<length ps. \<exists>u. done_ok u (res ! j))
    \<and> (ps \<noteq> [] \<longrightarrow> (\<exists>j<length ps. int (length ps) \<le> sint (completionTime (res ! j))))"
  proof (cases "loop_body pol")
    case None
    then have pol: "pol = FCFS" by (cases pol) simp_all
    have res: "res = fcfs_loop 0 ?X"
      using r by (simp add: pol init_def)
    have rng: "max (sint (0 :: int32)) (latest_arrival ?X) + total_burst ?X < 2 ^ 31"
      using fX latest_arrival_nonneg[of ?X] by (simp add: fits_def)
    show ?thesis
      using fcfs_loop_timed[OF vX _ rng] fcfs_loop_last[OF vX _ rng] lX ne
      unfolding res by (auto simp del: length_start)
  next
    case (Some b)
    from r obtain x where x: "loop b fuel (start pol ps) = Some x" "map_sum (\<lambda>e. e) processes x = Inr res"
      by (auto simp: simulate_loop[OF Some] finish_def)
    from loop_partial[where I = "tinv (timed_ready pol) ?X", OF _ tinv_start[OF v] x(1)]
      body_tinv_step[OF Some vX fX vp]
    obtain s' where s': "x = Inr s'" "tinv (timed_ready pol) ?X s'"
      "\<not> completed s' < length (processes s')"
      by blast
    with x(2) have res: "res = processes s'" by simp
    note F = sinv_final[OF s'(2)[unfolded tinv_def, THEN conjunct1] s'(3)]
    show ?thesis
      unfolding res using F(6,7) lX ne by (auto simp del: length_start simp: last_ok_def)
  qed
  then show "\<And>j. j < length ps \<Longrightarrow> \<exists>u. done_ok u (res ! j)"
    and "ps \<noteq> [] \<Longrightarrow> \<exists>j<length ps. int (length ps) \<le> sint (completionTime (res ! j))"
    by blast+
qed

subsection \<open>Metrics\<close>

lemma foldl_smax_Max:
  "sint (foldl (\<lambda>m p. smax m (f p)) a xs) = Max (insert (sint a) ((\<lambda>p. sint (f p)) ` set xs))"
proof (induction xs arbitrary: a)
  case Nil
  then show ?case by simp
next
  case (Cons x xs)
  have "Max (insert (max (sint a) (sint (f x))) ((\<lambda>p. sint (f p)) ` set xs))
      = Max (insert (sint a) (insert (sint (f x)) ((\<lambda>p. sint (f p)) ` set xs)))"
    by (cases "xs = []") (simp_all add: max.assoc)
  with Cons[of "smax a (f x)"] show ?case by (simp add: smax_cases)
qed

lemma throughput_calculateMetrics:
  "throughput (calculateMetrics ps) =
     fdiv (real (length ps))
       (real_of_int (Max (insert 0 ((\<lambda>p. sint (completionTime p)) ` set ps))))"
proof -
  have "throughput (calculateMetrics ps) =
     fdiv (real (length ps))
       (real_of_int (sint (foldl (\<lambda>m p. smax m (completionTime p)) 0 ps)))"
    unfolding calculateMetrics_def Let_def by (simp only: metrics.select_convs)
  then show ?thesis by (simp only: foldl_smax_Max sint_0)
qed

lemma schedule_Inr:
  "schedule pol fuel ps = Some (Inr (res, m)) \<longleftrightarrow>
     simulate pol fuel ps = Some (Inr res) \<and> m = calculateMetrics res"
proof (cases "simulate pol fuel ps")
  case None
  then show ?thesis by (simp add: schedule_def)
next
  case (Some x)
  then show ?thesis by (cases x) (auto simp: schedule_def)
qed

subsection \<open>A Round Robin slice that does not finish its process\<close>

lemma rr_body_preempt:
  assumes ne: "pq (admit queue_push s) \<noteq> []" and tq: "0 \<le> sint tq"
    and lt: "sint tq < sint (remainingTime (processes s ! hd (pq (admit queue_push s))))"
  shows "\<exists>s'. rr_body tq s = Inr s'
     \<and> pq s' = tl (pq (admit queue_push s)) @ [idx (admit queue_push s) ..< idx s']
               @ [hd (pq (admit queue_push s))]
     \<and> currentTime s' = currentTime s + tq
     \<and> \<not> arrived s'
     \<and> (\<forall>j. idx (admit queue_push s) \<le> j \<and> j < idx s' \<longrightarrow>
            sint (arrivalTime (processes s' ! j)) \<le> sint (currentTime s'))"
proof -
  define s1 where "s1 = admit queue_push s"
  define p where "p = hd (pq s1)"
  define r where "r = set_response (currentTime s1) (processes s1 ! p)"
  define e where "e = smin tq (remainingTime r)"
  define r1 where "r1 = r\<lparr>remainingTime := remainingTime r - e\<rparr>"
  define now where "now = currentTime s1 + e"
  define mid where "mid = s1\<lparr>processes := (processes s1)[p := r1], pq := tl (pq s1), currentTime := now\<rparr>"
  define s2 where "s2 = admit queue_push
       (s1\<lparr>processes := (processes s1)[p := r1], pq := tl (pq s1), currentTime := now\<rparr>)"
  have ne1: "pq s1 \<noteq> []" using ne by (simp add: s1_def)
  note B = rr_body_dispatch[OF s1_def ne1 p_def r_def e_def r1_def now_def s2_def]
  have s2m: "s2 = admit queue_push mid" by (simp add: s2_def mid_def)
  have lt': "sint tq < sint (remainingTime r)"
    using lt by (simp add: r_def s1_def p_def)
  have e: "e = tq" using lt' by (simp add: e_def smin_def)
  have "sint (remainingTime r - tq) = sint (remainingTime r) - sint tq"
    using tq lt' by (intro sint_sub_nonneg) simp_all
  then have pos: "sint (remainingTime r1) > 0" using lt' by (simp add: r1_def e)
  define s' where "s' = s2\<lparr>pq := pq s2 @ [p]\<rparr>"
  have b: "rr_body tq s = Inr s'"
    using B pos by (simp add: s'_def queue_push_def)
  note P = admit_props[OF push_ok_queue_push, of mid]
  have q2: "pq s2 = tl (pq s1) @ [idx s1 ..< idx s2]"
    using admit_queue_push[of mid] by (simp add: s2m) (simp add: mid_def)
  have "pq s' = tl (pq s1) @ [idx s1 ..< idx s'] @ [p]"
    by (simp add: s'_def q2)
  moreover have "currentTime s' = currentTime s + tq"
    by (simp add: s'_def s2_def now_def e s1_def)
  moreover have "\<not> arrived s'"
    using P by (simp add: arrived_def s'_def s2m)
  moreover have "\<forall>j. idx s1 \<le> j \<and> j < idx s' \<longrightarrow>
      sint (arrivalTime (processes s' ! j)) \<le> sint (currentTime s')"
    using P by (simp add: s'_def s2m) (simp add: mid_def)
  ultimately show ?thesis
    using b unfolding s1_def[symmetric] p_def[symmetric] by blast
qed

text \<open>
  Scenario C of the specification (a vector in arrival order, quantum 2): process 1 runs
  on [0,2), process 2 on [2,4), process 1 on [4,6) and process 2 on [6,7); they complete
  at 6 and 7.
\<close>

lemma round_robin_scenario_C:
  "rr_slices 2 4 (init scenario_C) = [(1, 0, 2), (2, 2, 4), (1, 4, 6), (2, 6, 7)]
   \<and> map_option (map_sum (\<lambda>e. e) (map completionTime)) (simulate (RoundRobin 2) 4 scenario_C)
       = Some (Inr [6, 7])"
  by code_simp

subsection \<open>The binary heap\<close>

lemma is_heap_key:
  assumes "\<And>a b. cmp a b = (k a < (k b :: int))"
  shows "is_heap cmp f n \<longleftrightarrow> (\<forall>j. 0 < j \<and> j < n \<longrightarrow> k (f ! j) \<le> k (f ! ((j - 1) div 2)))"
  by (auto simp: is_heap_def assms not_less)

lemma heap_top:
  assumes cmp: "\<And>a b. cmp a b = (k a < (k b :: int))" and h: "is_heap cmp f n"
  shows "j < n \<Longrightarrow> k (f ! j) \<le> k (f ! 0)"
proof (induction j rule: less_induct)
  case (less j)
  show ?case
  proof (cases "j = 0")
    case False
    then have p: "(j - 1) div 2 < j" by linarith
    with less.prems have "(j - 1) div 2 < n" by simp
    from less.IH[OF p this] h False less.prems show ?thesis
      unfolding is_heap_key[of cmp k, OF cmp] by force
  qed simp
qed

text \<open>\<^verbatim>\<open>__push_heap\<close> with \<^verbatim>\<open>topIndex\<close> 0 turns a heap with a hole into a heap.\<close>

lemma push_heap_loop_heap:
  assumes cmp: "\<And>a b. cmp a b = (k a < (k b :: int))"
  shows "heap_up k n f h v \<Longrightarrow> n \<le> length f \<Longrightarrow> is_heap cmp (push_heap_loop cmp f h 0 v) n"
proof (induction h arbitrary: f rule: less_induct)
  case (less h)
  let ?p = "(h - 1) div 2"
  let ?g = "f[h := v]"
  note nl = less.prems(2)
  from less.prems(1) have hn: "h < n"
    and c1: "\<And>j. 0 < j \<Longrightarrow> j < n \<Longrightarrow> j \<noteq> h \<Longrightarrow> k (?g ! j) \<le> k (?g ! ((j - 1) div 2))"
    and c2: "\<And>j. 0 < j \<Longrightarrow> j < n \<Longrightarrow> (j - 1) div 2 = h \<Longrightarrow> 0 < h \<Longrightarrow> k (f ! j) \<le> k (f ! ?p)"
    unfolding heap_up_def by blast+
  have c1': "k (f ! j) \<le> k (if (j - 1) div 2 = h then v else f ! ((j - 1) div 2))"
    if "0 < j" "j < n" "j \<noteq> h" for j
  proof -
    have "(j - 1) div 2 < length f" using that nl by linarith
    with c1[OF that] that nl show ?thesis by (auto simp: nth_list_update)
  qed
  show ?case
  proof (cases "0 < h \<and> k (f ! ?p) < k v")
    case True
    then have ph: "?p < h" by linarith
    let ?f' = "f[h := f ! ?p]"
    have e: "push_heap_loop cmp f h 0 v = push_heap_loop cmp ?f' ?p 0 v"
      using True by (subst push_heap_loop.simps) (simp add: cmp Let_def)
    have up: "heap_up k n ?f' ?p v"
      unfolding heap_up_def
    proof (intro conjI allI impI)
      show "?p < n" using ph hn by simp
    next
      fix j assume j: "0 < j \<and> j < n \<and> j \<noteq> ?p"
      then have jl: "j < length f" "(j - 1) div 2 < length f" using nl by linarith+
      have pl: "?p < length f" "h < length f" using ph hn nl by linarith+
      show "k (?f'[?p := v] ! j) \<le> k (?f'[?p := v] ! ((j - 1) div 2))"
      proof (cases "j = h")
        case True
        then show ?thesis using \<open>0 < h \<and> k (f ! ?p) < k v\<close> pl ph
          by (simp add: nth_list_update)
      next
        case False
        note jh = this
        show ?thesis
        proof (cases "(j - 1) div 2 = ?p")
          case True
          from c1'[of j] j jh True ph have "k (f ! j) \<le> k (f ! ?p)" by auto
          with True \<open>0 < h \<and> k (f ! ?p) < k v\<close> j jh jl pl show ?thesis
            by (simp add: nth_list_update)
        next
          case np: False
          show ?thesis
          proof (cases "(j - 1) div 2 = h")
            case True
            from c2[of j] j True \<open>0 < h \<and> k (f ! ?p) < k v\<close> have "k (f ! j) \<le> k (f ! ?p)" by simp
            with True j jh jl pl ph show ?thesis by (simp add: nth_list_update)
          next
            case False
            from c1'[of j] j jh False have "k (f ! j) \<le> k (f ! ((j - 1) div 2))" by simp
            with False np j jh jl pl show ?thesis by (simp add: nth_list_update)
          qed
        qed
      qed
    next
      fix j assume j: "0 < j \<and> j < n \<and> (j - 1) div 2 = ?p \<and> 0 < ?p"
      then have jl: "j < length f" using nl by linarith
      have pl: "?p < length f" "h < length f" using ph hn nl by linarith+
      have pp: "(?p - 1) div 2 < ?p" using j by linarith
      have gp: "k (f ! ?p) \<le> k (f ! ((?p - 1) div 2))"
        using c1'[of ?p] j ph hn pp by auto
      have "k (?f' ! j) \<le> k (f ! ?p)"
      proof (cases "j = h")
        case True
        then show ?thesis using pl by simp
      next
        case False
        with c1'[of j] j ph have "k (f ! j) \<le> k (f ! ?p)" by auto
        with False show ?thesis by (simp add: nth_list_update)
      qed
      moreover have "?f' ! ((?p - 1) div 2) = f ! ((?p - 1) div 2)"
        using pp ph by (simp add: nth_list_update)
      ultimately show "k (?f' ! j) \<le> k (?f' ! ((?p - 1) div 2))"
        using gp by simp
    qed
    have "n \<le> length ?f'" using nl by simp
    from less.IH[OF ph up this] show ?thesis by (simp only: e)
  next
    case False
    then have e: "push_heap_loop cmp f h 0 v = ?g"
      by (subst push_heap_loop.simps) (auto simp: cmp Let_def)
    have "k (?g ! j) \<le> k (?g ! ((j - 1) div 2))" if "0 < j" "j < n" for j
    proof (cases "j = h")
      case True
      with that False have "k v \<le> k (f ! ?p)" "?p < h" by auto
      with True hn nl show ?thesis by (simp add: nth_list_update)
    next
      case False
      with c1[OF that] show ?thesis by simp
    qed
    then show ?thesis
      unfolding e is_heap_key[of cmp k, OF cmp] by blast
  qed
qed

lemma pq_push_heap:
  assumes cmp: "\<And>a b. cmp a b = (k a < (k b :: int))" and h: "is_heap cmp c (length c)"
  shows "is_heap cmp (pq_push cmp c x) (Suc (length c))"
proof -
  have hk: "\<And>j. 0 < j \<Longrightarrow> j < length c \<Longrightarrow> k (c ! j) \<le> k (c ! ((j - 1) div 2))"
    using h unfolding is_heap_key[of cmp k, OF cmp] by blast
  have "heap_up k (Suc (length c)) (c @ [x]) (length c) x"
    unfolding heap_up_def
  proof (intro conjI allI impI)
    show "length c < Suc (length c)" by simp
  next
    fix j assume j: "0 < j \<and> j < Suc (length c) \<and> j \<noteq> length c"
    then have "j < length c" "(j - 1) div 2 < length c" by linarith+
    with hk[of j] j show "k ((c @ [x])[length c := x] ! j)
        \<le> k ((c @ [x])[length c := x] ! ((j - 1) div 2))"
      by (simp add: nth_append)
  next
    fix j assume "0 < j \<and> j < Suc (length c) \<and> (j - 1) div 2 = length c \<and> 0 < length c"
    then have False by linarith
    then show "k ((c @ [x]) ! j) \<le> k ((c @ [x]) ! ((length c - 1) div 2))" ..
  qed
  from push_heap_loop_heap[of cmp k, OF cmp this] show ?thesis
    by (simp add: pq_push_def)
qed

text \<open>The hole of \<^verbatim>\<open>__adjust_heap\<close> sinks along the larger children.\<close>

lemma adjust_heap_loop_heap:
  assumes cmp: "\<And>a b. cmp a b = (k a < (k b :: int))"
  shows "heap_down k len f h \<Longrightarrow> len \<le> length f \<Longrightarrow> adjust_heap_loop cmp f h len = (f', h') \<Longrightarrow>
         heap_down k len f' h' \<and> (len - 1) div 2 \<le> h' \<and> length f' = length f"
proof (induction "len - h" arbitrary: f h rule: less_induct)
  case less
  note nl = less.prems(2)
  from less.prems(1) have hn: "h < len"
    and d1: "\<And>j. 0 < j \<Longrightarrow> j < len \<Longrightarrow> (j - 1) div 2 \<noteq> h \<Longrightarrow> k (f ! j) \<le> k (f ! ((j - 1) div 2))"
    and d2: "\<And>j. 0 < j \<Longrightarrow> j < len \<Longrightarrow> (j - 1) div 2 = h \<Longrightarrow> 0 < h \<Longrightarrow>
                 k (f ! j) \<le> k (f ! ((h - 1) div 2))"
    unfolding heap_down_def by blast+
  show ?case
  proof (cases "h < (len - 1) div 2")
    case True
    define c where "c = 2 * (h + 1)"
    define c' where "c' = (if cmp (f ! c) (f ! (c - 1)) then c - 1 else c)"
    let ?f1 = "f[h := f ! c']"
    have cb: "c < len" "h < c'" "c' < len" "c' = c \<or> c' = c - 1" "(c' - 1) div 2 = h"
      "c = 2 * h + 2"
      using True by (auto simp: c_def c'_def)
    have big: "k (f ! c) \<le> k (f ! c')" "k (f ! (c - 1)) \<le> k (f ! c')"
      by (auto simp: c'_def cmp)
    have rec: "adjust_heap_loop cmp ?f1 c' len = (f', h')"
      using less.prems(3) True
      by (subst (asm) adjust_heap_loop.simps) (auto simp: Let_def c_def c'_def split: if_splits)
    have hl: "h < length f" using hn nl by simp
    have down: "heap_down k len ?f1 c'"
      unfolding heap_down_def
    proof (intro conjI allI impI)
      show "c' < len" by (rule cb)
    next
      fix j assume j: "0 < j \<and> j < len \<and> (j - 1) div 2 \<noteq> c'"
      show "k (?f1 ! j) \<le> k (?f1 ! ((j - 1) div 2))"
      proof (cases "(j - 1) div 2 = h")
        case True
        then have "j = c \<or> j = c - 1" using j cb(6) by linarith
        moreover have "j \<noteq> h" using True j by linarith
        ultimately show ?thesis using True big hl by (auto simp: nth_list_update)
      next
        case False
        show ?thesis
        proof (cases "j = h")
          case True
          then have "0 < h" using j by simp
          from d2[of c'] cb this have "k (f ! c') \<le> k (f ! ((h - 1) div 2))" by simp
          moreover have "(h - 1) div 2 \<noteq> h" using \<open>0 < h\<close> by linarith
          ultimately show ?thesis using True hl by (simp add: nth_list_update)
        next
          case jh: False
          from d1[of j] j False have "k (f ! j) \<le> k (f ! ((j - 1) div 2))" by simp
          with jh False show ?thesis by (simp add: nth_list_update)
        qed
      qed
    next
      fix j assume j: "0 < j \<and> j < len \<and> (j - 1) div 2 = c' \<and> 0 < c'"
      then have "j \<noteq> h" "(j - 1) div 2 \<noteq> h" using cb by linarith+
      with d1[of j] j have "k (f ! j) \<le> k (f ! c')" by simp
      with \<open>j \<noteq> h\<close> cb hl show "k (?f1 ! j) \<le> k (?f1 ! ((c' - 1) div 2))"
        by (simp add: nth_list_update)
    qed
    have "len - c' < len - h" using cb by linarith
    from less.hyps[OF this down _ rec] nl show ?thesis by simp
  next
    case False
    then have "f' = f" "h' = h"
      using less.prems(3) by (subst (asm) adjust_heap_loop.simps, simp)+
    with False less.prems show ?thesis by simp
  qed
qed

lemma adjust_heap_heap:
  assumes cmp: "\<And>a b. cmp a b = (k a < (k b :: int))"
    and d: "heap_down k len f 0" and nl: "len \<le> length f"
  shows "is_heap cmp (adjust_heap cmp f 0 len v) len"
proof -
  obtain f1 h1 where l: "adjust_heap_loop cmp f 0 len = (f1, h1)"
    by (cases "adjust_heap_loop cmp f 0 len")
  from adjust_heap_loop_heap[of cmp k, OF cmp d nl l]
  have d1: "heap_down k len f1 h1" and lo: "(len - 1) div 2 \<le> h1" and lf: "length f1 = length f"
    by simp_all
  from d1 have hn: "h1 < len"
    and e1: "\<And>j. 0 < j \<Longrightarrow> j < len \<Longrightarrow> (j - 1) div 2 \<noteq> h1 \<Longrightarrow> k (f1 ! j) \<le> k (f1 ! ((j - 1) div 2))"
    and e2: "\<And>j. 0 < j \<Longrightarrow> j < len \<Longrightarrow> (j - 1) div 2 = h1 \<Longrightarrow> 0 < h1 \<Longrightarrow>
                 k (f1 ! j) \<le> k (f1 ! ((h1 - 1) div 2))"
    unfolding heap_down_def by blast+
  define f2 where "f2 = (if even len \<and> h1 = (len - 2) div 2 then f1[h1 := f1 ! (2 * (h1 + 1) - 1)] else f1)"
  define h2 where "h2 = (if even len \<and> h1 = (len - 2) div 2 then 2 * (h1 + 1) - 1 else h1)"
  have eq: "adjust_heap cmp f 0 len v = push_heap_loop cmp f2 h2 0 v"
    by (simp add: adjust_heap_def l f2_def h2_def)
  have up: "heap_up k len f2 h2 v"
  proof (cases "even len \<and> h1 = (len - 2) div 2")
    case True
    then obtain b where b: "len = 2 * b" "0 < b" using hn by (auto elim!: evenE)
    with True have h1: "h1 = b - 1" by simp
    have h2: "h2 = len - 1" "h1 < h2" using True b h1 by (auto simp: h2_def)
    have f2: "f2 = f1[h1 := f1 ! h2]" using True by (simp add: f2_def h2_def)
    have ll: "h1 < length f1" "h2 < length f1" using hn h2 nl lf b by linarith+
    show ?thesis
      unfolding heap_up_def
    proof (intro conjI allI impI)
      show "h2 < len" using h2 b by simp
    next
      fix j assume j: "0 < j \<and> j < len \<and> j \<noteq> h2"
      then have p2: "(j - 1) div 2 \<noteq> h2" "(j - 1) div 2 < j" using h2 b by linarith+
      have jl: "j < length f1" "(j - 1) div 2 < length f1" using j nl lf by linarith+
      show "k (f2[h2 := v] ! j) \<le> k (f2[h2 := v] ! ((j - 1) div 2))"
      proof (cases "j = h1")
        case True
        then have "0 < h1" using j by simp
        have "(h2 - 1) div 2 = h1" using h2 h1 b by linarith
        from e2[of h2, OF _ _ this \<open>0 < h1\<close>] h2 b have "k (f1 ! h2) \<le> k (f1 ! ((h1 - 1) div 2))"
          by simp
        moreover have "(h1 - 1) div 2 \<noteq> h1" using \<open>0 < h1\<close> by linarith
        ultimately show ?thesis using True j p2 ll jl by (simp add: f2 nth_list_update)
      next
        case False
        have "(j - 1) div 2 \<noteq> h1" using j h1 h2 b by linarith
        with e1[of j] j have "k (f1 ! j) \<le> k (f1 ! ((j - 1) div 2))" by simp
        with False \<open>(j - 1) div 2 \<noteq> h1\<close> j p2 show ?thesis
          by (simp add: f2 nth_list_update)
      qed
    next
      fix j assume "0 < j \<and> j < len \<and> (j - 1) div 2 = h2 \<and> 0 < h2"
      then have False using h2 b by linarith
      then show "k (f2 ! j) \<le> k (f2 ! ((h2 - 1) div 2))" ..
    qed
  next
    case False
    then have f2: "f2 = f1" "h2 = h1" by (auto simp: f2_def h2_def)
    have leaf: "len \<le> 2 * h1 + 1"
    proof (cases "even len")
      case True
      then obtain b where b: "len = 2 * b" by (auto elim!: evenE)
      with False lo hn show ?thesis by (cases b) auto
    next
      case odd: False
      then obtain b where b: "len = 2 * b + 1" by (auto elim!: oddE)
      with lo show ?thesis by simp
    qed
    show ?thesis
      unfolding heap_up_def f2
    proof (intro conjI allI impI)
      show "h1 < len" by (rule hn)
    next
      fix j assume j: "0 < j \<and> j < len \<and> j \<noteq> h1"
      then have p: "(j - 1) div 2 \<noteq> h1" using leaf by linarith
      with e1[of j] j have "k (f1 ! j) \<le> k (f1 ! ((j - 1) div 2))" by simp
      with j p show "k (f1[h1 := v] ! j) \<le> k (f1[h1 := v] ! ((j - 1) div 2))"
        by (simp add: nth_list_update)
    next
      fix j assume "0 < j \<and> j < len \<and> (j - 1) div 2 = h1 \<and> 0 < h1"
      then have False using leaf by linarith
      then show "k (f1 ! j) \<le> k (f1 ! ((h1 - 1) div 2))" ..
    qed
  qed
  have "len \<le> length f2" using nl lf by (simp add: f2_def)
  from push_heap_loop_heap[of cmp k, OF cmp up this] show ?thesis by (simp only: eq)
qed

lemma pq_pop_heap:
  assumes cmp: "\<And>a b. cmp a b = (k a < (k b :: int))" and h: "is_heap cmp c (length c)"
  shows "is_heap cmp (pq_pop cmp c) (length c - 1)"
proof (cases "length c > 1")
  case True
  define n where "n = length c - 1"
  define c' where "c' = c[n := hd c]"
  define r where "r = adjust_heap cmp c' 0 n (last c)"
  have n: "0 < n" "n < length c" "length c' = length c" "n \<le> length c'"
    using True by (auto simp: n_def c'_def)
  have hk: "\<And>j. 0 < j \<Longrightarrow> j < length c \<Longrightarrow> k (c ! j) \<le> k (c ! ((j - 1) div 2))"
    using h unfolding is_heap_key[of cmp k, OF cmp] by blast
  have d: "heap_down k n c' 0"
    unfolding heap_down_def
  proof (intro conjI allI impI)
    show "0 < n" by (rule n)
  next
    fix j assume j: "0 < j \<and> j < n \<and> (j - 1) div 2 \<noteq> 0"
    then have "j \<noteq> n" "(j - 1) div 2 \<noteq> n" "j < length c" using n by linarith+
    with hk[of j] j show "k (c' ! j) \<le> k (c' ! ((j - 1) div 2))"
      by (simp add: c'_def nth_list_update)
  next
    fix j assume "0 < j \<and> j < n \<and> (j - 1) div 2 = 0 \<and> (0::nat) < 0"
    then show "k (c' ! j) \<le> k (c' ! ((0 - 1) div 2))" by simp
  qed
  have hr: "is_heap cmp r n"
    unfolding r_def by (rule adjust_heap_heap[of cmp k, OF cmp d n(4)])
  have lr: "length r = length c"
    unfolding r_def using adjust_heap_props(1)[OF n(1,4), of cmp "last c"] n(3) by simp
  have "is_heap cmp (butlast r) n"
    unfolding is_heap_def
  proof (intro allI impI)
    fix j assume j: "0 < j \<and> j < n"
    then have "j < n" "(j - 1) div 2 < n" by linarith+
    then have "j < length (butlast r)" "(j - 1) div 2 < length (butlast r)"
      using lr by (simp_all add: n_def)
    then have "butlast r ! j = r ! j" "butlast r ! ((j - 1) div 2) = r ! ((j - 1) div 2)"
      by (simp_all add: nth_butlast)
    with hr j show "\<not> cmp (butlast r ! ((j - 1) div 2)) (butlast r ! j)"
      by (simp add: is_heap_def)
  qed
  then show ?thesis
    using True by (simp add: pq_pop_def r_def c'_def n_def)
next
  case False
  then show ?thesis by (simp add: is_heap_def)
qed

subsection \<open>The ready set of the non-preemptive policies stays a heap\<close>

lemma admit_heap:
  assumes cmp: "\<And>ps a b. cmp ps a b = (kf (ps ! a) < (kf (ps ! b) :: int))"
  shows "heap_inv cmp s \<Longrightarrow> heap_inv cmp (admit (\<lambda>ps. pq_push (cmp ps)) s)"
proof (induction "length (processes s) - idx s" arbitrary: s rule: less_induct)
  case less
  let ?push = "\<lambda>ps. pq_push (cmp ps)"
  show ?case
  proof (cases "arrived s")
    case True
    define s1 where "s1 = s\<lparr>pq := ?push (processes s) (pq s) (idx s), idx := idx s + 1\<rparr>"
    have e: "admit ?push s = admit ?push s1"
      using True by (simp add: admit_go s1_def)
    have "is_heap (cmp (processes s)) (pq_push (cmp (processes s)) (pq s) (idx s)) (Suc (length (pq s)))"
      using less.prems
      by (intro pq_push_heap[where k = "\<lambda>a. kf (processes s ! a)"]) (simp_all add: cmp heap_inv_def)
    then have h1: "heap_inv cmp s1"
      by (simp add: heap_inv_def s1_def length_pq_push)
    have "length (processes s1) - idx s1 < length (processes s) - idx s"
      using True by (auto simp: s1_def arrived_def)
    from less.hyps[OF this h1] show ?thesis by (simp only: e)
  next
    case False
    with less.prems show ?thesis by (simp add: admit_stop)
  qed
qed

lemma np_body_heap:
  assumes cmp: "\<And>ps a b. cmp ps a b = (kf (ps ! a) < (kf (ps ! b) :: int))"
    and kf: "\<And>t t' p. kf (finalize t (set_response t' p)) = kf p"
    and h: "heap_inv cmp s" and b: "np_body cmp s = Inr s'"
  shows "heap_inv cmp s'"
proof -
  let ?push = "\<lambda>ps. pq_push (cmp ps)"
  define s1 where "s1 = admit ?push s"
  have h1: "heap_inv cmp s1"
    unfolding s1_def by (rule admit_heap[of cmp kf, OF cmp h])
  show ?thesis
  proof (cases "pq s1 = []")
    case True
    then have "fast_forward s1 = Inr s'"
      using b by (simp add: np_body_empty s1_def)
    then have "pq s' = pq s1" "processes s' = processes s1"
      by (auto simp: fast_forward_def split: if_splits)
    with h1 show ?thesis by (simp add: heap_inv_def)
  next
    case False
    define p where "p = hd (pq s1)"
    define q where "q = pq_pop (cmp (processes s1)) (pq s1)"
    define r where "r = set_response (currentTime s1) (processes s1 ! p)"
    define r' where "r' = finalize (currentTime s1 + burstTime r) r"
    have s': "s' = s1\<lparr>processes := (processes s1)[p := r'], pq := q,
              currentTime := completionTime r', completed := completed s1 + 1\<rparr>"
      using np_body_dispatch[OF s1_def False p_def q_def r_def r'_def] b by simp
    have hq: "is_heap (cmp (processes s1)) q (length (pq s1) - 1)"
      unfolding q_def using h1
      by (intro pq_pop_heap[where k = "\<lambda>a. kf (processes s1 ! a)"]) (simp_all add: cmp heap_inv_def)
    have lq: "length q = length (pq s1) - 1"
      using length_pq_pop[OF False, of "cmp (processes s1)"] by (simp add: q_def)
    have "kf ((processes s1)[p := r'] ! a) = kf (processes s1 ! a)" for a
    proof (cases "p < length (processes s1)")
      case True
      then show ?thesis by (simp add: nth_list_update r'_def r_def kf)
    next
      case False
      then show ?thesis by (simp add: list_update_beyond)
    qed
    then have "cmp ((processes s1)[p := r']) = cmp (processes s1)"
      by (intro ext) (simp add: cmp)
    with hq lq show ?thesis by (simp add: heap_inv_def s')
  qed
qed

lemma priority_cmp_key:
  "priority_cmp ps a b = (sint (priority (ps ! a)) < sint (priority (ps ! b)))"
  by (simp add: priority_cmp_def)

lemma priority_decision_heap:
  assumes "decision_point Priority k ps = Some s"
  shows "heap_inv priority_cmp s"
proof -
  from assms obtain t where t: "iterate (np_body priority_cmp) k (start Priority ps) = Some t"
    and s: "s = admit (\<lambda>ps. pq_push (priority_cmp ps)) t"
    by (auto simp: decision_point_def split: option.splits if_splits)
  let ?I = "\<lambda>s. cnt_len (length ps) s \<and> heap_inv priority_cmp s"
  have step: "\<exists>s'. np_body priority_cmp s = Inr s' \<and> ?I s'"
    if "?I s" "completed s < length (processes s)" for s
  proof -
    from body_cnt_step[of Priority, OF _ _ that(2)] that(1) obtain s' where
      s': "np_body priority_cmp s = Inr s'" "cnt_len (length ps) s'" by auto
    from np_body_heap[of priority_cmp "\<lambda>p. sint (priority p)", OF priority_cmp_key _ _ s'(1)] that(1)
    have "heap_inv priority_cmp s'" by simp
    with s' show ?thesis by blast
  qed
  have "heap_inv priority_cmp (start Priority ps)"
    by (simp add: heap_inv_def is_heap_def init_def)
  then have "?I (start Priority ps)"
    using cnt_inv_start[of Priority ps] by (simp add: cnt_len_def del: start.simps)
  from iterate_inv[where I = ?I, OF step this t] have "heap_inv priority_cmp t" by simp
  then show ?thesis
    unfolding s by (rule admit_heap[of priority_cmp "\<lambda>p. sint (priority p)", OF priority_cmp_key])
qed

subsection \<open>What the non-preemptive Priority scheduler dispatches\<close>

text \<open>
  At every decision point with a non-empty ready set, on every input, the process at the
  top of the queue has the highest numeric priority value among the ready processes, and
  it is the process that the body runs to completion.
\<close>

lemma priority_top_highest:
  assumes "decision_point Priority k ps = Some s" "pq s \<noteq> []"
  shows "\<forall>j\<in>set (pq s).
           sint (priority (processes s ! j)) \<le> sint (priority (processes s ! hd (pq s)))"
proof
  fix j assume "j \<in> set (pq s)"
  then obtain i where i: "i < length (pq s)" "j = pq s ! i"
    by (auto simp: in_set_conv_nth)
  have "is_heap (priority_cmp (processes s)) (pq s) (length (pq s))"
    using priority_decision_heap[OF assms(1)] by (simp add: heap_inv_def)
  from heap_top[where k = "\<lambda>a. sint (priority (processes s ! a))", OF priority_cmp_key this i(1)]
  show "sint (priority (processes s ! j)) \<le> sint (priority (processes s ! hd (pq s)))"
    using assms(2) i(2) by (simp add: hd_conv_nth)
qed

lemma priority_top_dispatched:
  assumes "decision_point Priority k ps = Some s" "pq s \<noteq> []"
  shows "\<exists>t s'. iterate (np_body priority_cmp) k (start Priority ps) = Some t
           \<and> s = admit (\<lambda>ps. pq_push (priority_cmp ps)) t
           \<and> np_body priority_cmp t = Inr s'
           \<and> processes s' = (processes s)[hd (pq s) :=
                 finalize (currentTime s + burstTime (processes s ! hd (pq s)))
                   (set_response (currentTime s) (processes s ! hd (pq s)))]
           \<and> add_mset (hd (pq s)) (mset (pq s')) = mset (pq s)
           \<and> completed s' = completed s + 1"
proof -
  from assms(1) obtain t where t: "iterate (np_body priority_cmp) k (start Priority ps) = Some t"
    and s: "s = admit (\<lambda>ps. pq_push (priority_cmp ps)) t"
    by (auto simp: decision_point_def split: option.splits if_splits)
  define p where "p = hd (pq s)"
  define q where "q = pq_pop (priority_cmp (processes s)) (pq s)"
  define r where "r = set_response (currentTime s) (processes s ! p)"
  define r' where "r' = finalize (currentTime s + burstTime r) r"
  define s' where "s' = s\<lparr>processes := (processes s)[p := r'], pq := q,
              currentTime := completionTime r', completed := completed s + 1\<rparr>"
  have b: "np_body priority_cmp t = Inr s'"
    unfolding s'_def by (rule np_body_dispatch[OF s assms(2) p_def q_def r_def r'_def])
  have mq: "add_mset p (mset q) = mset (pq s)"
    unfolding p_def q_def by (rule mset_pq_pop[OF assms(2)])
  have "processes s' = (processes s)[p := finalize (currentTime s + burstTime (processes s ! p))
                   (set_response (currentTime s) (processes s ! p))]"
    by (simp add: s'_def r'_def r_def)
  with t s b mq show ?thesis
    unfolding p_def by (intro exI[of _ t] exI[of _ s']) (simp add: s'_def)
qed

subsection \<open>The processes of a result\<close>

lemma result_set:
  assumes v: "valid ps" and vp: "valid_policy pol" and r: "simulate pol fuel ps = Some (Inr res)"
    and p: "p \<in> set res"
  shows "finalized p" and "0 < sint (burstTime p)" and "preemptive pol \<Longrightarrow> remainingTime p = 0"
    and "fits ps \<Longrightarrow> \<exists>u. done_ok u p"
proof -
  from p obtain j where j: "j < length res" "p = res ! j" by (auto simp: in_set_conv_nth)
  note S = simulate_result[OF v vp r]
  from j S(1) have jl: "j < length ps" by simp
  show "finalized p" using S(3)[OF jl] j by simp
  show "remainingTime p = 0" if "preemptive pol" using S(4)[OF jl that] j by simp
  have "valid_process (processes (start pol ps) ! j)"
    using valid_nth[OF valid_start[OF v, of pol], of j] jl by simp
  with S(2)[OF jl] j show "0 < sint (burstTime p)"
    by (simp add: same_static_def valid_process_def)
  show "\<exists>u. done_ok u p" if "fits ps"
    using simulate_timed(1)[OF v that vp r jl] j by simp
qed

section \<open>The properties of the specification\<close>

text \<open>
  C4, as the code has it. On an empty process set every policy returns at once with the
  empty vector (the loop body never runs, whatever the fuel), and \<^verbatim>\<open>calculateMetrics\<close>
  divides zero by zero four times: no trap, but all four metrics are NaN, not zero. The
  division by zero is not guarded.
\<close>

theorem empty_process_set:
  "schedule pol fuel [] =
     Some (Inr ([], \<lparr>avgWaitingTime = NaN, avgTurnaroundTime = NaN,
                     avgResponseTime = NaN, throughput = NaN\<rparr>))"
proof -
  have "simulate pol fuel [] = Some (Inr [])"
    by (cases pol)
      (simp_all add: sort_by_arrival_def init_def finish_def loop.simps[of _ _ "\<lparr>processes = [], pq = [], currentTime = 0, completed = 0, idx = 0\<rparr>"])
  then show ?thesis
    by (simp add: schedule_def calculateMetrics_def fdiv_def)
qed

text \<open>
  C4 as stated fails: the metrics of the empty process set are not zero.
\<close>

theorem empty_metrics_not_zero:
  "avgWaitingTime (calculateMetrics []) \<noteq> Finite 0
   \<and> avgTurnaroundTime (calculateMetrics []) \<noteq> Finite 0
   \<and> avgResponseTime (calculateMetrics []) \<noteq> Finite 0
   \<and> throughput (calculateMetrics []) \<noteq> Finite 0"
  by (simp add: calculateMetrics_def fdiv_def)

text \<open>
  C9. At every decision point of every policy with a \<^verbatim>\<open>while\<close> loop, on every input: if
  the ready set is empty (and, a decision point being inside the loop, some process is
  still uncompleted), then \<^verbatim>\<open>i\<close> is less than the size of the vector, so the fast-forward
  branch reads a valid element and succeeds. Hence no simulation ends with an index out
  of range.
\<close>

theorem fast_forward_in_range:
  "(decision_point pol k ps = Some s \<and> pq s = [] \<longrightarrow>
      completed s < length (processes s) \<and> idx s < length (processes s)
      \<and> fast_forward s = Inr (s\<lparr>currentTime := arrivalTime (processes s ! idx s)\<rparr>))
   \<and> simulate pol fuel ps \<noteq> Some (Inl IndexOutOfRange)"
proof (rule conjI, rule impI)
  assume a: "decision_point pol k ps = Some s \<and> pq s = []"
  with decision_point_cnt[of pol k ps s]
  have c: "cnt_inv s" "completed s < length (processes s)" by simp_all
  with a have i: "idx s < length (processes s)" by (simp add: cnt_inv_def)
  with c show "completed s < length (processes s) \<and> idx s < length (processes s)
      \<and> fast_forward s = Inr (s\<lparr>currentTime := arrivalTime (processes s ! idx s)\<rparr>)"
    by (simp add: fast_forward_def)
next
  show "simulate pol fuel ps \<noteq> Some (Inl IndexOutOfRange)"
    by (rule simulate_no_error)
qed

theorem fast_forward_in_range_witness:
  "decision_point SJF 0 [Process 1 3 2 0] = Some (init [Process 1 3 2 0])
   \<and> pq (init [Process 1 3 2 0]) = []
   \<and> idx (init [Process 1 3 2 0]) < length (processes (init [Process 1 3 2 0]))
   \<and> fast_forward (init [Process 1 3 2 0]) = Inr ((init [Process 1 3 2 0])\<lparr>currentTime := 3\<rparr>)"
proof -
  have d: "decision_point SJF 0 [Process 1 3 2 0] = Some (init [Process 1 3 2 0])"
    by code_simp
  have e: "pq (init [Process 1 3 2 0]) = []"
    by (simp add: init_def)
  from fast_forward_in_range[of SJF 0 "[Process 1 3 2 0]" "init [Process 1 3 2 0]"] d e
  show ?thesis by (simp add: init_def Process_def)
qed

text \<open>
  C3, as the code has it. There is no validation: no run ends with an error, whatever the
  input and the quantum. For FCFS, SJF, SRTF, Priority and Preemptive Priority every
  input, also one with non-positive burst times or negative arrival times, is simulated to
  the end within \<open>4 * n + 1\<close> runs of the loop body, and output fields and metrics are
  computed for it.
\<close>

theorem no_input_rejected:
  "schedule pol fuel ps \<noteq> Some (Inl e)
   \<and> ((\<forall>q. pol \<noteq> RoundRobin q) \<and> 4 * length ps + 1 \<le> fuel \<longrightarrow>
        (\<exists>res. schedule pol fuel ps = Some (Inr (res, calculateMetrics res))
               \<and> length res = length ps))"
proof (rule conjI)
  show "schedule pol fuel ps \<noteq> Some (Inl e)"
    using simulate_no_error[of pol fuel ps e]
    by (auto simp: schedule_def map_sum_def split: sum.splits)
next
  show "(\<forall>q. pol \<noteq> RoundRobin q) \<and> 4 * length ps + 1 \<le> fuel \<longrightarrow>
        (\<exists>res. schedule pol fuel ps = Some (Inr (res, calculateMetrics res))
               \<and> length res = length ps)"
  proof
    assume a: "(\<forall>q. pol \<noteq> RoundRobin q) \<and> 4 * length ps + 1 \<le> fuel"
    then obtain res where "simulate pol fuel ps = Some (Inr res)" "length res = length ps"
      using simulate_terminates_any_input[of pol ps fuel] by blast
    then show "\<exists>res. schedule pol fuel ps = Some (Inr (res, calculateMetrics res))
               \<and> length res = length ps"
      by (simp add: schedule_def)
  qed
qed

theorem no_input_rejected_witness:
  "(\<forall>q. SRTF \<noteq> RoundRobin q)
   \<and> 4 * length [Process 1 (-3) 0 0, Process 2 0 (-2) 0] + 1 \<le> (9::nat)
   \<and> schedule SRTF 9 [Process 1 (-3) 0 0, Process 2 0 (-2) 0] \<noteq> Some (Inl IndexOutOfRange)
   \<and> (\<exists>res. schedule SRTF 9 [Process 1 (-3) 0 0, Process 2 0 (-2) 0]
               = Some (Inr (res, calculateMetrics res))
            \<and> length res = length [Process 1 (-3) 0 0, Process 2 0 (-2) 0])"
  using no_input_rejected[of SRTF 9 "[Process 1 (-3) 0 0, Process 2 0 (-2) 0]" IndexOutOfRange]
  by simp

text \<open>
  C3 as stated fails: FCFS on one process with arrival time \<open>-3\<close> and burst time \<open>0\<close> is
  not rejected; it computes the output fields and the metrics.
\<close>

theorem invalid_input_is_simulated:
  "schedule FCFS 0 [Process 1 (-3) 0 0] =
     Some (Inr ([(Process 1 (-3) 0 0)\<lparr>completionTime := 0, turnaroundTime := 3,
                                      waitingTime := 3, responseTime := 3\<rparr>],
                \<lparr>avgWaitingTime = Finite 3, avgTurnaroundTime = Finite 3,
                 avgResponseTime = Finite 3, throughput = PosInf\<rparr>))"
  by code_simp

text \<open>
  C5. For every policy and every valid process set (for Round Robin with a positive
  quantum), \<open>step_bound ps\<close> runs of the loop body suffice, whatever the clock does in
  32 bits: the simulation ends, without an error. The \<^verbatim>\<open>while\<close> loop of the policy (FCFS
  has a \<^verbatim>\<open>for\<close> loop over the vector instead) ends with \<^verbatim>\<open>completed\<close> equal to the number
  of processes, every process admitted and the ready set empty. Every process has gone
  through the completion branch, which derives its turnaround and waiting time from its
  completion time, and under the preemptive policies its remaining time is 0.
\<close>

theorem simulation_terminates:
  assumes "valid ps" "valid_policy pol" "step_bound ps \<le> fuel"
  shows "\<exists>res. simulate pol fuel ps = Some (Inr res) \<and> length res = length ps
           \<and> (\<forall>p\<in>set res. finalized p \<and> (preemptive pol \<longrightarrow> remainingTime p = 0))
           \<and> (\<forall>b. loop_body pol = Some b \<longrightarrow>
                (\<exists>s'. loop b fuel (start pol ps) = Some (Inr s') \<and> processes s' = res
                       \<and> completed s' = length ps \<and> pq s' = [] \<and> idx s' = length ps))"
proof -
  from simulate_terminates[OF assms] obtain res where r: "simulate pol fuel ps = Some (Inr res)"
    by blast
  have fin: "\<forall>p\<in>set res. finalized p \<and> (preemptive pol \<longrightarrow> remainingTime p = 0)"
    using result_set(1,3)[OF assms(1,2) r] by blast
  have lp: "\<exists>s'. loop b fuel (start pol ps) = Some (Inr s') \<and> processes s' = res
                       \<and> completed s' = length ps \<and> pq s' = [] \<and> idx s' = length ps"
    if b: "loop_body pol = Some b" for b
  proof -
    from loop_ends[OF b assms] obtain s' where
      s': "loop b fuel (start pol ps) = Some (Inr s')"
      "winv pol (processes (start pol ps)) s'" "\<not> completed s' < length (processes s')"
      by blast
    note F = sinv_final(2-4)[OF s'(2)[unfolded winv_def] s'(3)]
    have "processes s' = res"
      using r s'(1) by (simp add: simulate_loop[OF b] finish_def)
    with s'(1) F show ?thesis by simp
  qed
  from r simulate_result(1)[OF assms(1,2) r] fin lp show ?thesis by blast
qed

theorem simulation_terminates_witness:
  "valid scenario_C \<and> valid_policy (RoundRobin 2) \<and> step_bound scenario_C \<le> 16
   \<and> (\<exists>res. simulate (RoundRobin 2) 16 scenario_C = Some (Inr res)
          \<and> length res = length scenario_C
          \<and> list_all (\<lambda>p. finalized p \<and> remainingTime p = 0) res
          \<and> (\<exists>s'. loop (rr_body 2) 16 (start (RoundRobin 2) scenario_C) = Some (Inr s')
                 \<and> processes s' = res \<and> completed s' = length scenario_C \<and> pq s' = []
                 \<and> idx s' = length scenario_C))"
proof -
  have v: "valid scenario_C"
    by (simp add: valid_def valid_process_def scenario_C_def Process_def)
  have vp: "valid_policy (RoundRobin 2)" by simp
  have f: "step_bound scenario_C \<le> 16"
    by (simp add: step_bound_def scenario_C_def Process_def)
  have p: "preemptive (RoundRobin 2)" and b: "loop_body (RoundRobin 2) = Some (rr_body 2)"
    by simp_all
  from simulation_terminates[OF v vp f] v vp f p b show ?thesis
    unfolding list_all_iff by blast
qed

text \<open>
  C6. For every policy and every valid process set the simulation completes, within
  \<open>step_bound ps\<close> runs of the loop body (for Round Robin when the quantum is positive).
  Whenever it completes, with whatever quantum, every process has
  \<open>turnaroundTime = completionTime - arrivalTime\<close> and
  \<open>waitingTime = turnaroundTime - burstTime\<close>, as the machine computes the differences
  (in 32 bits, wrapping around).
\<close>

theorem turnaround_and_waiting:
  assumes "valid ps"
  shows "(valid_policy pol \<and> step_bound ps \<le> fuel \<longrightarrow>
            (\<exists>res. simulate pol fuel ps = Some (Inr res)))
         \<and> (\<forall>res. simulate pol fuel ps = Some (Inr res) \<longrightarrow>
               length res = length ps
               \<and> (\<forall>p\<in>set res. turnaroundTime p = completionTime p - arrivalTime p
                                \<and> waitingTime p = turnaroundTime p - burstTime p))"
proof (intro conjI impI allI)
  assume "valid_policy pol \<and> step_bound ps \<le> fuel"
  then show "\<exists>res. simulate pol fuel ps = Some (Inr res)"
    using simulate_terminates[OF assms] by blast
next
  fix res assume r: "simulate pol fuel ps = Some (Inr res)"
  show "length res = length ps" by (rule simulate_finalized(1)[OF assms r])
  show "\<forall>p\<in>set res. turnaroundTime p = completionTime p - arrivalTime p
                                \<and> waitingTime p = turnaroundTime p - burstTime p"
  proof
    fix p assume "p \<in> set res"
    then obtain j where j: "j < length res" "p = res ! j" by (auto simp: in_set_conv_nth)
    with simulate_finalized[OF assms r] have "finalized p" by simp
    then show "turnaroundTime p = completionTime p - arrivalTime p
                                \<and> waitingTime p = turnaroundTime p - burstTime p"
      by (simp add: finalized_def)
  qed
qed

theorem turnaround_and_waiting_witness:
  "valid scenario_C \<and> valid_policy SRTF \<and> step_bound scenario_C \<le> 16
   \<and> simulate SRTF 16 scenario_C =
       Some (Inr [(Process 1 0 4 0)\<lparr>remainingTime := 0, completionTime := 4,
                    turnaroundTime := 4, waitingTime := 0, responseTime := 0\<rparr>,
                  (Process 2 1 3 0)\<lparr>remainingTime := 0, completionTime := 7,
                    turnaroundTime := 6, waitingTime := 3, responseTime := 3\<rparr>])
   \<and> length [(Process 1 0 4 0)\<lparr>remainingTime := 0, completionTime := 4,
                turnaroundTime := 4, waitingTime := 0, responseTime := 0\<rparr>,
              (Process 2 1 3 0)\<lparr>remainingTime := 0, completionTime := 7,
                turnaroundTime := 6, waitingTime := 3, responseTime := 3\<rparr>]
       = length scenario_C
   \<and> list_all (\<lambda>p. turnaroundTime p = completionTime p - arrivalTime p
                     \<and> waitingTime p = turnaroundTime p - burstTime p)
         [(Process 1 0 4 0)\<lparr>remainingTime := 0, completionTime := 4,
            turnaroundTime := 4, waitingTime := 0, responseTime := 0\<rparr>,
          (Process 2 1 3 0)\<lparr>remainingTime := 0, completionTime := 7,
            turnaroundTime := 6, waitingTime := 3, responseTime := 3\<rparr>]"
proof -
  have v: "valid scenario_C"
    by (simp add: valid_def valid_process_def scenario_C_def Process_def)
  have vp: "valid_policy SRTF" by simp
  have f: "step_bound scenario_C \<le> 16"
    by (simp add: step_bound_def scenario_C_def Process_def)
  have r: "simulate SRTF 16 scenario_C =
       Some (Inr [(Process 1 0 4 0)\<lparr>remainingTime := 0, completionTime := 4,
                    turnaroundTime := 4, waitingTime := 0, responseTime := 0\<rparr>,
                  (Process 2 1 3 0)\<lparr>remainingTime := 0, completionTime := 7,
                    turnaroundTime := 6, waitingTime := 3, responseTime := 3\<rparr>])"
    by code_simp
  from turnaround_and_waiting[OF v, of SRTF 16] v vp f r show ?thesis
    unfolding list_all_iff by blast
qed

text \<open>
  C7 as stated fails: the clock is an \<^verbatim>\<open>int\<close> of 32 bits. Under SJF the valid processes
  (arrival 0, burst 1), (arrival 0, burst 2147483647), (arrival 0, burst 2147483647) are
  dispatched at times 0, 1 and 2147483648, and the last of these is \<open>-2147483648\<close> in 32
  bits: the third process ends with waiting time and response time \<open>-2147483648\<close>.
\<close>

theorem response_time_wraps:
  "valid [Process 1 0 1 0, Process 2 0 2147483647 0, Process 3 0 2147483647 0]
   \<and> map_option (map_sum (\<lambda>e. e) (map (\<lambda>p. (sint (waitingTime p), sint (responseTime p)))))
       (simulate SJF 4 [Process 1 0 1 0, Process 2 0 2147483647 0, Process 3 0 2147483647 0])
     = Some (Inr [(0, 0), (1, 1), (- 2147483648, - 2147483648)])"
  by code_simp

text \<open>
  C7, for the inputs on which no clock value leaves the range of \<^verbatim>\<open>int\<close>: a valid process
  set whose latest arrival time plus the sum of its burst times is below \<open>2\<^sup>3\<^sup>1\<close>. The
  simulation completes, and then every process has a non-negative waiting time and a
  non-negative response time; under FCFS, SJF and Priority its response time is at most
  its waiting time, and under SRTF, Round Robin and Preemptive Priority its response time
  is at most \<open>completionTime - arrivalTime\<close>, a difference that does not wrap around.
\<close>

theorem waiting_and_response_bounds:
  assumes "valid ps" "fits ps" "valid_policy pol" "step_bound ps \<le> fuel"
  shows "\<exists>res. simulate pol fuel ps = Some (Inr res) \<and> length res = length ps
           \<and> (\<forall>p\<in>set res. 0 \<le> sint (waitingTime p) \<and> 0 \<le> sint (responseTime p)
                \<and> (\<not> preemptive pol \<longrightarrow> sint (responseTime p) \<le> sint (waitingTime p))
                \<and> (preemptive pol \<longrightarrow>
                      sint (responseTime p) \<le> sint (completionTime p - arrivalTime p))
                \<and> sint (completionTime p - arrivalTime p)
                    = sint (completionTime p) - sint (arrivalTime p))"
proof -
  from simulate_terminates[OF assms(1,3,4)] obtain res where
    r: "simulate pol fuel ps = Some (Inr res)"
    by blast
  have "0 \<le> sint (waitingTime p) \<and> 0 \<le> sint (responseTime p)
                \<and> (\<not> preemptive pol \<longrightarrow> sint (responseTime p) \<le> sint (waitingTime p))
                \<and> (preemptive pol \<longrightarrow>
                      sint (responseTime p) \<le> sint (completionTime p - arrivalTime p))
                \<and> sint (completionTime p - arrivalTime p)
                    = sint (completionTime p) - sint (arrivalTime p)"
    if p: "p \<in> set res" for p
  proof -
    note S = result_set[OF assms(1,3) r p]
    from S(4)[OF assms(2)] obtain u where d: "done_ok u p" by blast
    have t: "turnaroundTime p = completionTime p - arrivalTime p"
      using S(1) by (simp add: finalized_def)
    from d S(2) show ?thesis
      unfolding t[symmetric] by (auto simp: done_ok_def)
  qed
  with r simulate_result(1)[OF assms(1,3) r] show ?thesis by blast
qed

theorem waiting_and_response_bounds_witness:
  "valid scenario_C \<and> fits scenario_C \<and> valid_policy SJF \<and> step_bound scenario_C \<le> 16
   \<and> \<not> preemptive SJF
   \<and> simulate SJF 16 scenario_C =
       Some (Inr [(Process 1 0 4 0)\<lparr>completionTime := 4,
                    turnaroundTime := 4, waitingTime := 0, responseTime := 0\<rparr>,
                  (Process 2 1 3 0)\<lparr>completionTime := 7,
                    turnaroundTime := 6, waitingTime := 3, responseTime := 3\<rparr>])
   \<and> list_all (\<lambda>p. 0 \<le> sint (waitingTime p) \<and> 0 \<le> sint (responseTime p)
                     \<and> sint (responseTime p) \<le> sint (waitingTime p)
                     \<and> sint (completionTime p - arrivalTime p)
                         = sint (completionTime p) - sint (arrivalTime p))
         [(Process 1 0 4 0)\<lparr>completionTime := 4,
            turnaroundTime := 4, waitingTime := 0, responseTime := 0\<rparr>,
          (Process 2 1 3 0)\<lparr>completionTime := 7,
            turnaroundTime := 6, waitingTime := 3, responseTime := 3\<rparr>]"
proof -
  have v: "valid scenario_C"
    by (simp add: valid_def valid_process_def scenario_C_def Process_def)
  have ft: "fits scenario_C"
    by (simp add: fits_def latest_arrival_def total_burst_def scenario_C_def Process_def)
  have vp: "valid_policy SJF" "\<not> preemptive SJF" by simp_all
  have f: "step_bound scenario_C \<le> 16"
    by (simp add: step_bound_def scenario_C_def Process_def)
  have r: "simulate SJF 16 scenario_C =
       Some (Inr [(Process 1 0 4 0)\<lparr>completionTime := 4,
                    turnaroundTime := 4, waitingTime := 0, responseTime := 0\<rparr>,
                  (Process 2 1 3 0)\<lparr>completionTime := 7,
                    turnaroundTime := 6, waitingTime := 3, responseTime := 3\<rparr>])"
    by code_simp
  from waiting_and_response_bounds[OF v ft vp(1) f] obtain res where
    a: "simulate SJF 16 scenario_C = Some (Inr res)"
    and b: "\<forall>p\<in>set res. 0 \<le> sint (waitingTime p) \<and> 0 \<le> sint (responseTime p)
                \<and> (\<not> preemptive SJF \<longrightarrow> sint (responseTime p) \<le> sint (waitingTime p))
                \<and> (preemptive SJF \<longrightarrow>
                      sint (responseTime p) \<le> sint (completionTime p - arrivalTime p))
                \<and> sint (completionTime p - arrivalTime p)
                    = sint (completionTime p) - sint (arrivalTime p)"
    by blast
  from a have e: "res = [(Process 1 0 4 0)\<lparr>completionTime := 4,
                    turnaroundTime := 4, waitingTime := 0, responseTime := 0\<rparr>,
                  (Process 2 1 3 0)\<lparr>completionTime := 7,
                    turnaroundTime := 6, waitingTime := 3, responseTime := 3\<rparr>]"
    unfolding r by simp
  from b v ft vp f r show ?thesis
    unfolding e list_all_iff by blast
qed

text \<open>
  C10 as stated fails: \<^verbatim>\<open>completionTime\<close> is an \<^verbatim>\<open>int\<close> of 32 bits. One valid process with
  arrival time 2147483647 and burst time 1, under FCFS, completes at 2147483648, which is
  \<open>-2147483648\<close> in 32 bits; \<^verbatim>\<open>maxCompletionTime\<close> stays 0 and the throughput is \<open>1 / 0\<close>,
  the positive infinity.
\<close>

theorem throughput_wraps:
  "valid [Process 1 2147483647 1 0] \<and> [Process 1 2147483647 1 0] \<noteq> []
   \<and> map_option (map_sum (\<lambda>e. e) (\<lambda>(res, m). (map (\<lambda>p. sint (completionTime p)) res, throughput m)))
       (schedule FCFS 0 [Process 1 2147483647 1 0])
     = Some (Inr ([- 2147483648], PosInf))"
  by code_simp

text \<open>
  C10, for the inputs on which no clock value leaves the range of \<^verbatim>\<open>int\<close> (the latest
  arrival time plus the sum of the burst times is below \<open>2\<^sup>3\<^sup>1\<close>): for every policy and
  every such non-empty valid process set the simulation completes, and the throughput
  computed after it is the number of processes divided by the greatest completion time,
  and it lies in \<open>(0, 1]\<close>. (The quotient is the exact one; the rounding of \<^verbatim>\<open>double\<close> is
  not modelled.)
\<close>

theorem throughput_bound:
  assumes "valid ps" "fits ps" "ps \<noteq> []" "valid_policy pol" "step_bound ps \<le> fuel"
  shows "\<exists>res m. schedule pol fuel ps = Some (Inr (res, m))
     \<and> throughput m
         = Finite (real (length ps)
                   / real_of_int (Max ((\<lambda>p. sint (completionTime p)) ` set res)))
     \<and> 0 < real (length ps) / real_of_int (Max ((\<lambda>p. sint (completionTime p)) ` set res))
     \<and> real (length ps) / real_of_int (Max ((\<lambda>p. sint (completionTime p)) ` set res)) \<le> 1"
proof -
  from simulate_terminates[OF assms(1,4,5)] obtain res where
    r: "simulate pol fuel ps = Some (Inr res)"
    by blast
  define m where "m = calculateMetrics res"
  have sc: "schedule pol fuel ps = Some (Inr (res, m))"
    using r by (simp add: schedule_Inr m_def)
  have len: "length res = length ps" by (rule simulate_result(1)[OF assms(1,4) r])
  from simulate_timed(2)[OF assms(1,2,4) r assms(3)] len obtain j where
    j: "j < length res" "int (length ps) \<le> sint (completionTime (res ! j))"
    by auto
  let ?M = "Max ((\<lambda>p. sint (completionTime p)) ` set res)"
  have "sint (completionTime (res ! j)) \<in> (\<lambda>p. sint (completionTime p)) ` set res"
    using j(1) by simp
  then have "sint (completionTime (res ! j)) \<le> ?M" by simp
  with j(2) have M: "int (length ps) \<le> ?M" by simp
  have n: "0 < length ps" using assms(3) by simp
  with M have Mpos: "0 < ?M" by linarith
  have ne: "(\<lambda>p. sint (completionTime p)) ` set res \<noteq> {}" using j(1) by auto
  have "Max (insert 0 ((\<lambda>p. sint (completionTime p)) ` set res)) = ?M"
    using Mpos ne by (simp add: max_def)
  then have t: "throughput m = Finite (real (length ps) / real_of_int ?M)"
    using Mpos len by (simp add: m_def throughput_calculateMetrics fdiv_def)
  have "real (length ps) \<le> real_of_int ?M"
    using M by (metis of_int_le_iff of_int_of_nat_eq)
  then have "real (length ps) / real_of_int ?M \<le> 1"
    using Mpos by simp
  moreover have "0 < real (length ps) / real_of_int ?M"
    using n Mpos by simp
  ultimately show ?thesis using t sc by blast
qed

theorem throughput_bound_witness:
  "valid scenario_C \<and> fits scenario_C \<and> scenario_C \<noteq> [] \<and> valid_policy (RoundRobin 2)
   \<and> step_bound scenario_C \<le> 16
   \<and> schedule (RoundRobin 2) 16 scenario_C =
       Some (Inr ([(Process 1 0 4 0)\<lparr>remainingTime := 0, completionTime := 6,
                     turnaroundTime := 6, waitingTime := 2, responseTime := 0\<rparr>,
                   (Process 2 1 3 0)\<lparr>remainingTime := 0, completionTime := 7,
                     turnaroundTime := 6, waitingTime := 3, responseTime := 1\<rparr>],
                  \<lparr>avgWaitingTime = Finite (5 / 2), avgTurnaroundTime = Finite 6,
                   avgResponseTime = Finite (1 / 2), throughput = Finite (2 / 7)\<rparr>))
   \<and> throughput \<lparr>avgWaitingTime = Finite (5 / 2), avgTurnaroundTime = Finite 6,
                  avgResponseTime = Finite (1 / 2), throughput = Finite (2 / 7)\<rparr>
       = Finite (real (length scenario_C) / 7)
   \<and> 0 < real (length scenario_C) / 7 \<and> real (length scenario_C) / 7 \<le> 1"
proof -
  have v: "valid scenario_C"
    by (simp add: valid_def valid_process_def scenario_C_def Process_def)
  have ft: "fits scenario_C"
    by (simp add: fits_def latest_arrival_def total_burst_def scenario_C_def Process_def)
  have ne: "scenario_C \<noteq> []" by (simp add: scenario_C_def)
  have vp: "valid_policy (RoundRobin 2)" by simp
  have f: "step_bound scenario_C \<le> 16"
    by (simp add: step_bound_def scenario_C_def Process_def)
  have r: "schedule (RoundRobin 2) 16 scenario_C =
       Some (Inr ([(Process 1 0 4 0)\<lparr>remainingTime := 0, completionTime := 6,
                     turnaroundTime := 6, waitingTime := 2, responseTime := 0\<rparr>,
                   (Process 2 1 3 0)\<lparr>remainingTime := 0, completionTime := 7,
                     turnaroundTime := 6, waitingTime := 3, responseTime := 1\<rparr>],
                  \<lparr>avgWaitingTime = Finite (5 / 2), avgTurnaroundTime = Finite 6,
                   avgResponseTime = Finite (1 / 2), throughput = Finite (2 / 7)\<rparr>))"
    by code_simp
  from throughput_bound[OF v ft ne vp f] v ft ne vp f r show ?thesis
    by (simp add: Process_def)
qed

text \<open>
  C8 fails on the code when the vector is not in arrival order, for the reason of C2:
  Round Robin does not sort, and its admission loop stops at the first process of the
  vector that has not arrived. With quantum 2 and the processes (id 1, arrival 0, burst 4),
  (id 2, arrival 100, burst 1), (id 3, arrival 1, burst 3) in this order, process 3 arrives
  during the slice [0,2) of process 1, but after that slice the queue holds process 1 alone
  (index 0): process 3 is behind process 2 in the vector and is admitted at time 100 only.
  It runs on [101,103) and [103,104). With the vector in arrival order it is admitted
  during the first slice and runs on [2,4), before process 1 resumes.
\<close>

theorem round_robin_leaves_arrival_behind:
  "rr_body 2 (init [Process 1 0 4 0, Process 2 100 1 0, Process 3 1 3 0]) =
     Inr \<lparr>processes = [(Process 1 0 4 0)\<lparr>remainingTime := 2, responseTime := 0\<rparr>,
                         Process 2 100 1 0, Process 3 1 3 0],
          pq = [0], currentTime = 2, completed = 0, idx = 1\<rparr>
   \<and> rr_slices 2 6 (init [Process 1 0 4 0, Process 2 100 1 0, Process 3 1 3 0])
       = [(1, 0, 2), (1, 2, 4), (2, 100, 101), (3, 101, 103), (3, 103, 104)]
   \<and> rr_slices 2 6 (init [Process 1 0 4 0, Process 3 1 3 0, Process 2 100 1 0])
       = [(1, 0, 2), (3, 2, 4), (1, 4, 6), (3, 6, 7), (2, 100, 101)]"
  by code_simp

text \<open>
  C2 fails on the code for Round Robin, the one scheduler that does not sort: with quantum
  2, the processes (id 1, arrival 5, burst 2), (id 2, arrival 0, burst 2) given in this
  order are both admitted at time 5 only, and process 2 responds at 7 and completes at 9;
  given in the order of their arrival, process 2 runs at once and completes at 2.
\<close>

theorem round_robin_depends_on_input_order:
  "simulate (RoundRobin 2) 3 [Process 1 5 2 0, Process 2 0 2 0] =
     Some (Inr [(Process 1 5 2 0)\<lparr>remainingTime := 0, completionTime := 7,
                  turnaroundTime := 2, waitingTime := 0, responseTime := 0\<rparr>,
                (Process 2 0 2 0)\<lparr>remainingTime := 0, completionTime := 9,
                  turnaroundTime := 9, waitingTime := 7, responseTime := 7\<rparr>])
   \<and> simulate (RoundRobin 2) 3 [Process 2 0 2 0, Process 1 5 2 0] =
     Some (Inr [(Process 2 0 2 0)\<lparr>remainingTime := 0, completionTime := 2,
                  turnaroundTime := 2, waitingTime := 0, responseTime := 0\<rparr>,
                (Process 1 5 2 0)\<lparr>remainingTime := 0, completionTime := 7,
                  turnaroundTime := 2, waitingTime := 0, responseTime := 0\<rparr>])"
  by code_simp

text \<open>
  C1 fails on the code. The comparator of \<^verbatim>\<open>PriorityScheduler\<close> is
  \<^verbatim>\<open>a->priority < b->priority\<close>, and the top of a \<^verbatim>\<open>std::priority_queue\<close> is a greatest
  element under its comparator: the scheduler dispatches the highest numeric priority
  value first (lemmas \<open>priority_top_highest\<close> and \<open>priority_top_dispatched\<close>). The other
  three heaps of the program are written with \<^verbatim>\<open>>\<close>, so that the least element is at
  the top. After process 1 has run, processes 2 (priority 1) and 3 (priority 5) are both
  ready at time 5; the top of the queue is process 3 (index 2), which completes at 7,
  before process 2, which completes at 9. Preemptive Priority, on the same processes,
  runs process 2 first (it completes at 3), then process 1, then process 3. Nor are ties
  broken by arrival order: processes 2, 3, 4 and 5 (arrivals 1, 2, 3, 4, all of priority
  7) wait for process 1 and are then dispatched in the order 2, 4, 3, 5, as the heap has
  them.
\<close>

theorem priority_dispatches_not_lowest_value:
  "map_option pq (decision_point Priority 1 [Process 1 0 5 3, Process 2 1 2 1, Process 3 1 2 5])
     = Some [2, 1]
   \<and> map_option (map priority \<circ> processes)
       (decision_point Priority 1 [Process 1 0 5 3, Process 2 1 2 1, Process 3 1 2 5])
     = Some [3, 1, 5]
   \<and> map_option (map_sum (\<lambda>e. e) (map completionTime))
       (simulate Priority 3 [Process 1 0 5 3, Process 2 1 2 1, Process 3 1 2 5])
     = Some (Inr [5, 9, 7])
   \<and> map_option (map_sum (\<lambda>e. e) (map completionTime))
       (simulate PreemptivePriority 5 [Process 1 0 5 3, Process 2 1 2 1, Process 3 1 2 5])
     = Some (Inr [7, 3, 9])
   \<and> map_option (map_sum (\<lambda>e. e) (map completionTime))
       (simulate Priority 6 [Process 1 0 10 0, Process 2 1 1 7, Process 3 2 1 7,
                             Process 4 3 1 7, Process 5 4 1 7])
     = Some (Inr [10, 11, 13, 12, 14])"
  by code_simp

end
